theory Spec2Isabelle
  imports Main "HOL-Library.Word" "HOL-Library.Signed_Division"
begin

unbundle bit_operations_syntax

section \<open>Run-time failures\<close>

text \<open>
  The Go run time stops a goroutine with a panic on an out-of-range index, on a nil
  pointer dereference, on an integer division by zero and on an explicit \<open>panic(msg)\<close>.
  Each of them is a value of \<open>error\<close>; a function that can panic returns
  \<open>error + 'a\<close> with \<open>Inl\<close> for the panic. \<open>IndexOutOfRange i n\<close> carries the
  index and the length, as the message of the Go run time does.
\<close>

datatype error =
    IndexOutOfRange int nat
  | NilDereference
  | DivideByZero
  | Panic string

section \<open>bplustree.go: pages\<close>

text \<open>
  \<open>LEAFPAGE\<close> and \<open>INTERPAGE\<close> are the two values the code compares
  \<open>PageHeader.flag\<close> with.
\<close>

definition LEAFPAGE :: "8 word" where
  "LEAFPAGE = 0"

definition INTERPAGE :: "8 word" where
  "INTERPAGE = 1"

record PageHeader =
  flag :: "8 word"
  freeOffset :: "16 word"
  nCell :: "16 word"
  pgno :: "16 word"
  nFree :: "8 word"
  parent :: "32 word"

record Cell =
  ptr :: "32 word"
  key :: "32 word"

text \<open>
  \<open>Payload\<close>: the fields \<open>key\<close> and \<open>size\<close> of the source are \<open>pl_key\<close> and
  \<open>pl_size\<close> here (\<open>key\<close> is a field of \<open>Cell\<close> already, \<open>size\<close> a constant of
  HOL). \<open>pl_entrys\<close> holds the \<open>pl_size\<close> document ids that the pointer \<open>entrys\<close>
  points at; no function below reads them.
\<close>

record Payload =
  pl_key :: "32 word"
  pl_size :: "16 word"
  pl_entrys :: "32 word list"

text \<open>
  \<open>MemPage\<close>: \<open>ph\<close> is a pointer to the header (\<open>None\<close> is nil, which is what
  \<open>&MemPage{}\<close> holds). The source declares \<open>cell\<close> as the cell index area and reads
  it as \<open>p.cell[i].key\<close> and \<open>p.cell[i].ptr\<close>: it is the sequence of the cells in slot
  order, and reading it at an index that is not below its length panics. The raw buffer
  pointers \<open>aData\<close>, \<open>aDataEnd\<close> and \<open>aDataOfst\<close> are never read by the functions
  below and are left out.
\<close>

record MemPage =
  ph :: "PageHeader option"
  cell :: "Cell list"

definition cell_at :: "MemPage \<Rightarrow> nat \<Rightarrow> error + Cell" where
  "cell_at p i =
     (if i < length (cell p) then Inr (cell p ! i)
      else Inl (IndexOutOfRange (int i) (length (cell p))))"

subsection \<open>sort.Search\<close>

text \<open>
  \<open>sort.Search(n, f)\<close> of the Go standard library:
  \<^verbatim>\<open>
  i, j := 0, n
  for i < j {
    h := int(uint(i+j) >> 1)
    if !f(h) { i = h + 1 } else { j = h }
  }
  return i
  \<close>
  The callback of \<open>find\<close> reads the cell array, so it can panic, and the panic
  leaves the loop. With \<open>n\<close> a cell count (below \<open>2 ^ 16\<close>) the sum \<open>i + j\<close>
  does not overflow.
\<close>

function sort_Search_loop :: "(nat \<Rightarrow> error + bool) \<Rightarrow> nat \<Rightarrow> nat \<Rightarrow> error + nat" where
  "sort_Search_loop f i j =
     (if i < j then
        (let h = (i + j) div 2 in
         case f h of
           Inl e \<Rightarrow> Inl e
         | Inr b \<Rightarrow> if \<not> b then sort_Search_loop f (h + 1) j else sort_Search_loop f i h)
      else Inr i)"
  by pat_completeness auto
termination
  by (relation "measure (\<lambda>(f, i, j). j - i)") auto

declare sort_Search_loop.simps [simp del]

definition sort_Search :: "nat \<Rightarrow> (nat \<Rightarrow> error + bool) \<Rightarrow> error + nat" where
  "sort_Search n f = sort_Search_loop f 0 n"

subsection \<open>find\<close>

text \<open>
  \<open>find\<close> returns \<open>(p.cell[i].ptr, true)\<close> or \<open>(nil, false)\<close>: the first component
  is an option, \<open>None\<close> for nil. The second operand of \<open>&&\<close> is evaluated only when the
  first holds. The search key is compared with the cells' \<open>uint32\<close> keys, so it is taken
  as a \<open>uint32\<close>.
\<close>

definition cmp :: "MemPage \<Rightarrow> 32 word \<Rightarrow> nat \<Rightarrow> error + bool" where
  "cmp p k i = (case cell_at p i of Inl e \<Rightarrow> Inl e | Inr c \<Rightarrow> Inr (key c \<ge> k))"

definition MemPage_find :: "MemPage \<Rightarrow> 32 word \<Rightarrow> error + (32 word option \<times> bool)" where
  "MemPage_find p k =
     (case ph p of
        None \<Rightarrow> Inl NilDereference
      | Some h \<Rightarrow>
         (case sort_Search (unat (nCell h)) (cmp p k) of
            Inl e \<Rightarrow> Inl e
          | Inr i \<Rightarrow>
             if flag h = INTERPAGE then
               (case cell_at p i of Inl e \<Rightarrow> Inl e | Inr c \<Rightarrow> Inr (Some (ptr c), True))
             else if i \<le> unat (nCell h) then
               (case cell_at p i of
                  Inl e \<Rightarrow> Inl e
                | Inr c \<Rightarrow> if key c = k then Inr (Some (ptr c), True) else Inr (None, False))
             else Inr (None, False)))"

section \<open>bplustree.go: the tree\<close>

text \<open>
  \<open>BPlusTree\<close>: \<open>page\<close> is the pointer to the root page and \<open>hm\<close> the Go map from
  page numbers to pages; a Go map returns nil for a key it does not hold. The pager
  and the size fields are never read by \<open>Search\<close> and \<open>Insert\<close> and are left out.
  \<open>Search\<close> starts at \<open>bptree.pPage\<close>, a field the struct does not declare: it is
  read as \<open>page\<close>, the only page the struct holds.
  No function of the source writes into a \<open>MemPage\<close> or a \<open>PageHeader\<close>, so a
  pointer to a page is modelled by the page itself.
\<close>

record BPlusTree =
  page :: "MemPage option"
  hm :: "32 word \<Rightarrow> MemPage option"

subsection \<open>Search\<close>

text \<open>
  \<open>Search\<close> returns \<open>(offset, curr)\<close> with \<open>offset = nil\<close> on a miss. In the
  interior case the source writes \<open>find(key)\<close>, read as \<open>curr.find(key)\<close>. The
  loop has no bound of its own (the pages may point at each other in a cycle), so
  the result is an option and \<open>None\<close> stands for a loop that never returns.
\<close>

partial_function (option) Search_loop ::
  "BPlusTree \<Rightarrow> 32 word \<Rightarrow> MemPage option \<Rightarrow> (error + (32 word option \<times> MemPage option)) option" where
  "Search_loop bptree k cur =
     (case cur of
        None \<Rightarrow> Some (Inl NilDereference)
      | Some pg \<Rightarrow>
         (case ph pg of
            None \<Rightarrow> Some (Inl NilDereference)
          | Some h \<Rightarrow>
             if flag h = LEAFPAGE then
               (case MemPage_find pg k of
                  Inl e \<Rightarrow> Some (Inl e)
                | Inr r \<Rightarrow> if \<not> snd r then Some (Inr (None, cur)) else Some (Inr (fst r, cur)))
             else if flag h = INTERPAGE then
               (case MemPage_find pg k of
                  Inl e \<Rightarrow> Some (Inl e)
                | Inr r \<Rightarrow>
                   (case fst r of
                      None \<Rightarrow> Some (Inl NilDereference)
                    | Some n \<Rightarrow> Search_loop bptree k (hm bptree n)))
             else Some (Inl (Panic ''no such flag!''))))"

declare Search_loop.simps [code]

definition Search ::
  "BPlusTree \<Rightarrow> 32 word \<Rightarrow> (error + (32 word option \<times> MemPage option)) option" where
  "Search bptree k = Search_loop bptree k (page bptree)"

subsection \<open>full, insert, parent\<close>

text \<open>
  \<open>data\<close> is the \<open>interface{}\<close> argument of \<open>insert\<close> and \<open>full\<close>, with the two
  dynamic types of the type switch (\<open>PlayLoad\<close> is read as \<open>Payload\<close>).

  The source uses names it does not declare. They are the fields of \<open>env\<close>:
  \<^item> \<open>need d\<close> is the value of \<open>pl.size + size(Cell)\<close> in \<open>full\<close>, where neither
    \<open>pl\<close> nor \<open>size\<close> is declared;
  \<^item> \<open>newpage n\<close> is the page returned by the \<open>n\<close>-th call of \<open>newpage()\<close>;
  \<^item> \<open>split_key n\<close> is the value of the variable \<open>key\<close> that \<open>insert\<close> returns
    beside that page (its assignment is commented out in the source).
\<close>

datatype data = DCell Cell | DPayload Payload

record env =
  need :: "data \<Rightarrow> nat"
  newpage :: "nat \<Rightarrow> MemPage option"
  split_key :: "nat \<Rightarrow> 32 word"

definition MemPage_full :: "env \<Rightarrow> MemPage option \<Rightarrow> data \<Rightarrow> error + bool" where
  "MemPage_full E p d =
     (case p of
        None \<Rightarrow> Inl NilDereference
      | Some pg \<Rightarrow>
         (case ph pg of
            None \<Rightarrow> Inl NilDereference
          | Some h \<Rightarrow>
             (case d of
                DCell c \<Rightarrow>
                  if flag h = INTERPAGE then Inr (unat (nFree h) > need E d)
                  else Inl (Panic ''full error'')
              | DPayload pl \<Rightarrow>
                  if flag h = LEAFPAGE then Inr (unat (nFree h) > need E d)
                  else Inl (Panic ''full error''))))"

text \<open>
  \<open>insert\<close> returns \<open>(true, nil, nil)\<close> when \<open>full\<close> answers false, and otherwise
  \<open>(false, key, newpg)\<close> with a page from \<open>newpage()\<close>. It writes nothing: the split
  and the update of the page are comments in the source. \<open>n\<close> counts the calls of
  \<open>newpage()\<close> made so far. The second result is a \<open>uint32\<close>; its nil is read as the
  zero value (no caller looks at it when the first result is true).
\<close>

definition MemPage_insert ::
  "env \<Rightarrow> nat \<Rightarrow> data \<Rightarrow> MemPage option \<Rightarrow> error + (bool \<times> 32 word \<times> MemPage option)" where
  "MemPage_insert E n d p =
     (case MemPage_full E p d of
        Inl e \<Rightarrow> Inl e
      | Inr ok \<Rightarrow>
         if \<not> ok then Inr (True, 0, None)
         else Inr (False, split_key E n, newpage E n))"

text \<open>\<open>parent()\<close> returns the page's own \<open>pgno\<close>, widened to the \<open>uint32\<close> of the map.\<close>

definition MemPage_parent :: "MemPage option \<Rightarrow> error + 32 word" where
  "MemPage_parent p =
     (case p of
        None \<Rightarrow> Inl NilDereference
      | Some pg \<Rightarrow> (case ph pg of None \<Rightarrow> Inl NilDereference | Some h \<Rightarrow> Inr (ucast (pgno h))))"

text \<open>\<open>p.ph.pgno\<close> (written \<open>phno\<close> and \<open>page.pgno\<close> in places) of a page pointer.\<close>

definition MemPage_pgno :: "MemPage option \<Rightarrow> error + 16 word" where
  "MemPage_pgno p =
     (case p of
        None \<Rightarrow> Inl NilDereference
      | Some pg \<Rightarrow> (case ph pg of None \<Rightarrow> Inl NilDereference | Some h \<Rightarrow> Inr (pgno h)))"

subsection \<open>Insert\<close>

text \<open>
  The body of the \<open>for\<close> loop of \<open>Insert\<close>. \<open>ok != nil\<close> on the boolean \<open>ok\<close>
  is read as \<open>ok\<close>. The arguments of a call are evaluated before the call, so
  \<open>newpg.ph.phno\<close> is read before \<open>insert\<close> runs. The loop has no bound of its
  own: \<open>None\<close> stands for a loop that never returns.
\<close>

partial_function (option) Insert_loop ::
  "env \<Rightarrow> BPlusTree \<Rightarrow> nat \<Rightarrow> 32 word \<Rightarrow> MemPage option \<Rightarrow> MemPage option
     \<Rightarrow> (error + BPlusTree) option" where
  "Insert_loop E bptree n k newpg ppg =
     (case MemPage_pgno newpg of
        Inl e \<Rightarrow> Some (Inl e)
      | Inr pn \<Rightarrow>
         (case MemPage_insert E n (DCell \<lparr>ptr = ucast pn, key = k\<rparr>) ppg of
            Inl e \<Rightarrow> Some (Inl e)
          | Inr r \<Rightarrow>
             if fst r then Some (Inr bptree)
             else
               (case MemPage_pgno ppg of
                  Inl e \<Rightarrow> Some (Inl e)
                | Inr ppn \<Rightarrow>
                   (case MemPage_pgno (page bptree) of
                      Inl e \<Rightarrow> Some (Inl e)
                    | Inr rootn \<Rightarrow>
                       if ppn = rootn then
                         (let rootpage = \<lparr>ph = None, cell = []\<rparr>;
                              bptree' = bptree\<lparr>page := Some rootpage\<rparr>
                          in case MemPage_pgno (snd (snd r)) of
                               Inl e \<Rightarrow> Some (Inl e)
                             | Inr pn' \<Rightarrow>
                                (case MemPage_insert E (n + 1)
                                        (DCell \<lparr>ptr = ucast pn', key = fst (snd r)\<rparr>) (Some rootpage) of
                                   Inl e \<Rightarrow> Some (Inl e)
                                 | Inr r1 \<Rightarrow>
                                    (case MemPage_insert E (if fst r1 then n + 1 else n + 2)
                                            (DCell \<lparr>ptr = ucast ppn, key = fst (snd r)\<rparr>) (Some rootpage) of
                                       Inl e \<Rightarrow> Some (Inl e)
                                     | Inr r2 \<Rightarrow> Some (Inr bptree'))))
                       else
                         (case MemPage_parent ppg of
                            Inl e \<Rightarrow> Some (Inl e)
                          | Inr pp \<Rightarrow>
                             Insert_loop E bptree (n + 1) (fst (snd r)) (snd (snd r)) (hm bptree pp))))))"

declare Insert_loop.simps [code]

text \<open>
  \<open>Insert\<close> returns nothing; the model returns the tree it leaves behind (only the
  field \<open>page\<close> is ever assigned).
\<close>

definition Insert :: "env \<Rightarrow> BPlusTree \<Rightarrow> Payload \<Rightarrow> (error + BPlusTree) option" where
  "Insert E bptree pl =
     (case Search bptree (pl_key pl) of
        None \<Rightarrow> None
      | Some (Inl e) \<Rightarrow> Some (Inl e)
      | Some (Inr s) \<Rightarrow>
         if fst s \<noteq> None then Some (Inr bptree)
         else
           (case MemPage_insert E 0 (DPayload pl) (snd s) of
              Inl e \<Rightarrow> Some (Inl e)
            | Inr r \<Rightarrow>
               if fst r then Some (Inr bptree)
               else
                 (case MemPage_parent (snd s) of
                    Inl e \<Rightarrow> Some (Inl e)
                  | Inr pp \<Rightarrow> Insert_loop E bptree 1 (fst (snd r)) (snd (snd r)) (hm bptree pp))))"

section \<open>cache.go: the page cache\<close>

text \<open>
  The entries of the cache point at each other (hash chain, dirty list, LRU list),
  and a write through one pointer is seen through every other, so the entries live
  in an explicit store: \<open>mem\<close> is the list of all entries ever allocated, the
  address of an entry is its index, and a pointer is a \<open>nat option\<close> with \<open>None\<close>
  for nil. Reading through nil (or through an address outside the store) panics.

  \<open>PgHdr\<close> has the fields that the functions below use. \<open>pNext\<close>, \<open>flags\<close>,
  \<open>isPinned\<close> and \<open>isBulkLocal\<close> are used by the code but missing from the struct
  declaration; \<open>flags\<close> is taken as 16 bits wide. The buffers \<open>pBuf\<close> and \<open>pExtra\<close>
  and the back pointers \<open>pCache\<close> and \<open>pPager\<close> do not influence any function below
  and are left out. Go's \<open>int\<close> is a 64-bit signed integer; it is modelled as
  \<open>int\<close>, with \<open>int64\<close> wrapping the results of \<open>+\<close>, \<open>-\<close> and \<open>*\<close>.
\<close>

record PgHdr =
  iKey :: int
  pNext :: "nat option"
  pDirtyNext :: "nat option"
  pDirtyPrev :: "nat option"
  pLruNext :: "nat option"
  pLruPrev :: "nat option"
  flags :: "16 word"
  isPinned :: int
  isBulkLocal :: int

text \<open>
  \<open>PCache\<close>: \<open>pFree\<close>, \<open>pDirty\<close>, \<open>pDirtyTail\<close> and \<open>iMaxKey\<close> are used by the code
  but missing from the struct declaration. \<open>lru_pLruPrev\<close> is \<open>pGroup.lru.pLruPrev\<close>,
  the tail of the LRU list; \<open>pGroup\<close> is not declared in the source and no function
  of it writes the LRU list. The sizes \<open>szPage\<close>, \<open>szAlloc\<close>, \<open>nMin\<close>, \<open>nInitPage\<close>
  and the slab \<open>pBulk\<close> do not influence any function below and are left out.
\<close>

record PCache =
  nMax :: int
  nPage :: int
  nHash :: int
  apHash :: "nat option list"
  pFree :: "nat option"
  pDirty :: "nat option"
  pDirtyTail :: "nat option"
  iMaxKey :: int
  lru_pLruPrev :: "nat option"
  mem :: "PgHdr list"

definition int64 :: "int \<Rightarrow> int" where
  "int64 x = (x + 2 ^ 63) mod 2 ^ 64 - 2 ^ 63"

definition load :: "PCache \<Rightarrow> nat option \<Rightarrow> error + (nat \<times> PgHdr)" where
  "load c p =
     (case p of
        None \<Rightarrow> Inl NilDereference
      | Some a \<Rightarrow> if a < length (mem c) then Inr (a, mem c ! a) else Inl NilDereference)"

definition store :: "PCache \<Rightarrow> nat \<Rightarrow> (PgHdr \<Rightarrow> PgHdr) \<Rightarrow> PCache" where
  "store c a f = c\<lparr>mem := (mem c)[a := f (mem c ! a)]\<rparr>"

definition set_pNext :: "PCache \<Rightarrow> nat \<Rightarrow> nat option \<Rightarrow> PCache" where
  "set_pNext c a v = store c a (\<lambda>x. x\<lparr>pNext := v\<rparr>)"

subsection \<open>Flags and list operations\<close>

text \<open>
  Modelled from the spec: the constants \<open>PGHDR_CLEAN\<close>, \<open>PGHDR_DIRTY\<close>,
  \<open>PGHDR_WRITEABLE\<close> and \<open>PGHDR_NEED_SYNC\<close> are used by \<open>MakeDirty\<close> and
  \<open>MakeClean\<close> but not declared in the source. The spec names them as the members of
  a flag set; they are four distinct bits here.
\<close>

definition PGHDR_CLEAN :: "16 word" where
  "PGHDR_CLEAN = 1"

definition PGHDR_DIRTY :: "16 word" where
  "PGHDR_DIRTY = 2"

definition PGHDR_WRITEABLE :: "16 word" where
  "PGHDR_WRITEABLE = 4"

definition PGHDR_NEED_SYNC :: "16 word" where
  "PGHDR_NEED_SYNC = 8"

definition PCACHE_DIRTYLIST_REMOVE :: "8 word" where
  "PCACHE_DIRTYLIST_REMOVE = 1"

definition PCACHE_DIRTYLIST_ADD :: "8 word" where
  "PCACHE_DIRTYLIST_ADD = 2"

definition PCACHE_DIRTYLIST_FRONT :: "8 word" where
  "PCACHE_DIRTYLIST_FRONT = 3"

subsection \<open>ManageDirtyList\<close>

text \<open>
  The first \<open>if\<close> block of \<open>ManageDirtyList\<close> (bit \<open>0x01\<close>). Every statement reads
  the store the statement before it left, since \<open>pPage.pDirtyNext\<close> and
  \<open>pPage.pDirtyPrev\<close> may point at \<open>pPage\<close> itself.
\<close>

definition ManageDirtyList_remove :: "PCache \<Rightarrow> nat option \<Rightarrow> error + PCache" where
  "ManageDirtyList_remove c pPage =
     (case load c pPage of
        Inl e \<Rightarrow> Inl e
      | Inr (a, pg) \<Rightarrow>
         (case (case pDirtyNext pg of
                  Some n \<Rightarrow>
                    (case load c (Some n) of
                       Inl e \<Rightarrow> Inl e
                     | Inr _ \<Rightarrow> Inr (store c n (\<lambda>x. x\<lparr>pDirtyPrev := pDirtyPrev pg\<rparr>)))
                | None \<Rightarrow> Inr (c\<lparr>pDirtyTail := pDirtyPrev pg\<rparr>)) of
            Inl e \<Rightarrow> Inl e
          | Inr c1 \<Rightarrow>
             (let pg1 = mem c1 ! a in
              case (case pDirtyPrev pg1 of
                      Some q \<Rightarrow>
                        (case load c1 (Some q) of
                           Inl e \<Rightarrow> Inl e
                         | Inr _ \<Rightarrow> Inr (store c1 q (\<lambda>x. x\<lparr>pDirtyNext := pDirtyNext pg1\<rparr>)))
                    | None \<Rightarrow> Inr (c1\<lparr>pDirty := pDirtyNext pg1\<rparr>)) of
                Inl e \<Rightarrow> Inl e
              | Inr c2 \<Rightarrow> Inr (store c2 a (\<lambda>x. x\<lparr>pDirtyNext := None, pDirtyPrev := None\<rparr>)))))"

text \<open>
  The second \<open>if\<close> block (bit \<open>0x02\<close>). The source reads the head of the list as
  \<open>p.pDirty\<close>; \<open>p\<close> is not declared, and the cache is the only object with a
  \<open>pDirty\<close> that the block writes. The block does not assign \<open>pPage.pDirtyPrev\<close>.
\<close>

definition ManageDirtyList_add :: "PCache \<Rightarrow> nat option \<Rightarrow> error + PCache" where
  "ManageDirtyList_add c pPage =
     (case load c pPage of
        Inl e \<Rightarrow> Inl e
      | Inr (a, pg) \<Rightarrow>
         (let c1 = store c a (\<lambda>x. x\<lparr>pDirtyNext := pDirty c\<rparr>) in
          case (case pDirty c of
                  Some n \<Rightarrow>
                    (case load c1 (Some n) of
                       Inl e \<Rightarrow> Inl e
                     | Inr _ \<Rightarrow> Inr (store c1 n (\<lambda>x. x\<lparr>pDirtyPrev := Some a\<rparr>)))
                | None \<Rightarrow> Inr (c1\<lparr>pDirtyTail := Some a\<rparr>)) of
            Inl e \<Rightarrow> Inl e
          | Inr c2 \<Rightarrow> Inr (c2\<lparr>pDirty := Some a\<rparr>)))"

definition ManageDirtyList :: "PCache \<Rightarrow> nat option \<Rightarrow> 8 word \<Rightarrow> error + PCache" where
  "ManageDirtyList c pPage addRemove =
     (case (if addRemove AND PCACHE_DIRTYLIST_REMOVE \<noteq> 0 then ManageDirtyList_remove c pPage
            else Inr c) of
        Inl e \<Rightarrow> Inl e
      | Inr c1 \<Rightarrow>
         if addRemove AND PCACHE_DIRTYLIST_ADD \<noteq> 0 then ManageDirtyList_add c1 pPage
         else Inr c1)"

subsection \<open>MakeDirty, MakeClean, MakeCleanAll\<close>

definition MakeDirty :: "PCache \<Rightarrow> nat option \<Rightarrow> error + PCache" where
  "MakeDirty c p =
     (case load c p of
        Inl e \<Rightarrow> Inl e
      | Inr (a, pg) \<Rightarrow>
         if flags pg AND PGHDR_CLEAN \<noteq> 0 then
           ManageDirtyList
             (store c a (\<lambda>x. x\<lparr>flags := flags x XOR (PGHDR_DIRTY OR PGHDR_CLEAN)\<rparr>))
             p PCACHE_DIRTYLIST_ADD
         else Inr c)"

definition MakeClean :: "PCache \<Rightarrow> nat option \<Rightarrow> error + PCache" where
  "MakeClean c p =
     (case load c p of
        Inl e \<Rightarrow> Inl e
      | Inr (a, pg) \<Rightarrow>
         if flags pg AND PGHDR_DIRTY \<noteq> 0 then
           (case ManageDirtyList c p PCACHE_DIRTYLIST_REMOVE of
              Inl e \<Rightarrow> Inl e
            | Inr c1 \<Rightarrow>
               Inr (store
                      (store c1 a
                         (\<lambda>x. x\<lparr>flags := flags x AND NOT (PGHDR_DIRTY OR PGHDR_NEED_SYNC OR PGHDR_WRITEABLE)\<rparr>))
                      a (\<lambda>x. x\<lparr>flags := flags x OR PGHDR_CLEAN\<rparr>)))
         else Inr c)"

text \<open>
  \<open>MakeCleanAll\<close> loops while the list has a head; the loop has no bound of its own
  (\<open>MakeClean\<close> leaves a head without the dirty flag where it is), so \<open>None\<close> stands
  for a loop that never returns.
\<close>

partial_function (option) MakeCleanAll :: "PCache \<Rightarrow> (error + PCache) option" where
  "MakeCleanAll c =
     (case pDirty c of
        None \<Rightarrow> Some (Inr c)
      | Some a \<Rightarrow>
         (case MakeClean c (Some a) of
            Inl e \<Rightarrow> Some (Inl e)
          | Inr c1 \<Rightarrow> MakeCleanAll c1))"

declare MakeCleanAll.simps [code]

subsection \<open>Indexing and remainder\<close>

text \<open>
  A slice read or written at an index outside \<open>[0, len)\<close> panics. Go's \<open>%\<close>
  truncates towards zero (the sign of the result is the sign of the dividend) and
  panics on a zero divisor.
\<close>

definition slot :: "'a list \<Rightarrow> int \<Rightarrow> error + 'a" where
  "slot xs i =
     (if 0 \<le> i \<and> i < int (length xs) then Inr (xs ! nat i)
      else Inl (IndexOutOfRange i (length xs)))"

definition go_rem :: "int \<Rightarrow> int \<Rightarrow> error + int" where
  "go_rem a b = (if b = 0 then Inl DivideByZero else Inr (a smod b))"

subsection \<open>ResizeHash\<close>

text \<open>
  The inner loop of \<open>ResizeHash\<close> moves the entries of one old chain to the heads of
  their new buckets. The new table \<open>apNew\<close> is a local of the function until the
  end: the state of the loops is the pair of \<open>apNew\<close> and the cache. The loop follows \<open>pNext\<close> with no bound of its own: \<open>None\<close> stands for a
  loop that never returns.
\<close>

partial_function (option) ResizeHash_inner ::
  "int \<Rightarrow> nat option list \<times> PCache \<Rightarrow> nat option
     \<Rightarrow> (error + (nat option list \<times> PCache)) option" where
  "ResizeHash_inner nNew s pCurPg =
     (case pCurPg of
        None \<Rightarrow> Some (Inr s)
      | Some a \<Rightarrow>
         (case load (snd s) (Some a) of
            Inl e \<Rightarrow> Some (Inl e)
          | Inr r \<Rightarrow>
             (case go_rem (iKey (snd r)) nNew of
                Inl e \<Rightarrow> Some (Inl e)
              | Inr h \<Rightarrow>
                 (case slot (fst s) h of
                    Inl e \<Rightarrow> Some (Inl e)
                  | Inr pNewPg \<Rightarrow>
                     ResizeHash_inner nNew
                       ((fst s)[nat h := Some a], set_pNext (snd s) a pNewPg) (pNext (snd r))))))"

declare ResizeHash_inner.simps [code]

text \<open>The outer loop, over the old bucket numbers \<open>0 .. nHash - 1\<close> in order.\<close>

fun ResizeHash_outer ::
  "int \<Rightarrow> nat list \<Rightarrow> nat option list \<times> PCache \<Rightarrow> (error + (nat option list \<times> PCache)) option" where
  "ResizeHash_outer nNew [] s = Some (Inr s)"
| "ResizeHash_outer nNew (i # rest) s =
     (case slot (apHash (snd s)) (int i) of
        Inl e \<Rightarrow> Some (Inl e)
      | Inr pCurPg \<Rightarrow>
         (case ResizeHash_inner nNew s pCurPg of
            None \<Rightarrow> None
          | Some (Inl e) \<Rightarrow> Some (Inl e)
          | Some (Inr s1) \<Rightarrow> ResizeHash_outer nNew rest s1))"

definition ResizeHash :: "PCache \<Rightarrow> (error + PCache) option" where
  "ResizeHash c =
     (let nNew0 = int64 (nHash c * 2);
          nNew = (if nNew0 < 256 then 256 else nNew0)
      in case ResizeHash_outer nNew [0..<nat (nHash c)] (replicate (nat nNew) None, c) of
           None \<Rightarrow> None
         | Some (Inl e) \<Rightarrow> Some (Inl e)
         | Some (Inr s) \<Rightarrow> Some (Inr ((snd s)\<lparr>apHash := fst s, nHash := nNew\<rparr>)))"

subsection \<open>FreePage, RemoveFromHash, AllocPage\<close>

definition FreePage :: "PCache \<Rightarrow> nat option \<Rightarrow> error + PCache" where
  "FreePage c p =
     (case load c p of
        Inl e \<Rightarrow> Inl e
      | Inr r \<Rightarrow> Inr ((set_pNext c (fst r) (pFree c))\<lparr>pFree := p\<rparr>))"

text \<open>
  \<open>RemoveFromHash\<close> walks a pointer to a pointer: \<open>p\<close> is the address of a bucket
  slot (\<open>Bucket h\<close> for \<open>&apHash[h]\<close>) or of an entry's \<open>pNext\<close> field
  (\<open>NextOf a\<close>). The walk stops at the location that holds \<open>pPage\<close>; reaching the
  end of the chain first reads \<open>pNext\<close> through nil and panics.
\<close>

datatype ppref = Bucket int | NextOf nat

definition read_pp :: "PCache \<Rightarrow> ppref \<Rightarrow> error + nat option" where
  "read_pp c p =
     (case p of
        Bucket h \<Rightarrow> slot (apHash c) h
      | NextOf a \<Rightarrow> (case load c (Some a) of Inl e \<Rightarrow> Inl e | Inr r \<Rightarrow> Inr (pNext (snd r))))"

definition write_pp :: "PCache \<Rightarrow> ppref \<Rightarrow> nat option \<Rightarrow> PCache" where
  "write_pp c p v =
     (case p of
        Bucket h \<Rightarrow> c\<lparr>apHash := (apHash c)[nat h := v]\<rparr>
      | NextOf a \<Rightarrow> set_pNext c a v)"

partial_function (option) RemoveFromHash_walk ::
  "PCache \<Rightarrow> nat option \<Rightarrow> ppref \<Rightarrow> (error + ppref) option" where
  "RemoveFromHash_walk c pPage p =
     (case read_pp c p of
        Inl e \<Rightarrow> Some (Inl e)
      | Inr q \<Rightarrow>
         if q \<noteq> pPage then
           (case load c q of
              Inl e \<Rightarrow> Some (Inl e)
            | Inr r \<Rightarrow> RemoveFromHash_walk c pPage (NextOf (fst r)))
         else Some (Inr p))"

declare RemoveFromHash_walk.simps [code]

definition RemoveFromHash :: "PCache \<Rightarrow> nat option \<Rightarrow> (error + PCache) option" where
  "RemoveFromHash c pPage =
     (case load c pPage of
        Inl e \<Rightarrow> Some (Inl e)
      | Inr r \<Rightarrow>
         (case go_rem (iKey (snd r)) (nHash c) of
            Inl e \<Rightarrow> Some (Inl e)
          | Inr h \<Rightarrow>
             (case RemoveFromHash_walk c pPage (Bucket h) of
                None \<Rightarrow> None
              | Some (Inl e) \<Rightarrow> Some (Inl e)
              | Some (Inr p) \<Rightarrow>
                 (let c1 = write_pp c p (pNext (snd r));
                      c2 = c1\<lparr>nPage := int64 (nPage c1 - 1)\<rparr>
                  in Some (FreePage c2 pPage)))))"

text \<open>
  \<open>AllocPage\<close> pops the free list, or takes a new entry from \<open>malloc\<close>: a new
  address at the end of the store, holding the zero value of every field. The
  allocation is taken to succeed.
\<close>

definition new_PgHdr :: PgHdr where
  "new_PgHdr = \<lparr>iKey = 0, pNext = None, pDirtyNext = None, pDirtyPrev = None, pLruNext = None,
     pLruPrev = None, flags = 0, isPinned = 0, isBulkLocal = 0\<rparr>"

definition AllocPage :: "PCache \<Rightarrow> error + (PCache \<times> nat option)" where
  "AllocPage c =
     (case pFree c of
        Some a \<Rightarrow>
          (case load c (Some a) of
             Inl e \<Rightarrow> Inl e
           | Inr r \<Rightarrow> Inr (set_pNext (c\<lparr>pFree := pNext (snd r)\<rparr>) a None, Some a))
      | None \<Rightarrow>
          Inr (c\<lparr>mem := mem c @ [new_PgHdr\<lparr>isBulkLocal := 0\<rparr>]\<rparr>, Some (length (mem c))))"

subsection \<open>FetchPage\<close>

text \<open>Step 1: the walk along the chain of the key's bucket.\<close>

partial_function (option) FetchPage_walk ::
  "PCache \<Rightarrow> int \<Rightarrow> nat option \<Rightarrow> (error + nat option) option" where
  "FetchPage_walk c k pPage =
     (case pPage of
        None \<Rightarrow> Some (Inr None)
      | Some a \<Rightarrow>
         (case load c (Some a) of
            Inl e \<Rightarrow> Some (Inl e)
          | Inr r \<Rightarrow>
             if iKey (snd r) \<noteq> k then FetchPage_walk c k (pNext (snd r))
             else Some (Inr (Some a))))"

declare FetchPage_walk.simps [code]

text \<open>The last \<open>if\<close> block of \<open>FetchPage\<close>: the entry goes to the head of its bucket.\<close>

definition FetchPage_install :: "PCache \<Rightarrow> int \<Rightarrow> nat option \<Rightarrow> error + (PCache \<times> nat option)" where
  "FetchPage_install c k pPage =
     (case pPage of
        None \<Rightarrow> Inr (c, None)
      | Some a \<Rightarrow>
         (case go_rem k (nHash c) of
            Inl e \<Rightarrow> Inl e
          | Inr h \<Rightarrow>
             (case load c (Some a) of
                Inl e \<Rightarrow> Inl e
              | Inr _ \<Rightarrow>
                 (let c1 = c\<lparr>nPage := int64 (nPage c + 1)\<rparr>;
                      c2 = store c1 a (\<lambda>x. x\<lparr>iKey := k\<rparr>)
                  in case slot (apHash c2) h of
                       Inl e \<Rightarrow> Inl e
                     | Inr old \<Rightarrow>
                        (let c3 = store c2 a
                                    (\<lambda>x. x\<lparr>pNext := old, pLruPrev := None, pLruNext := None,
                                            isPinned := 1\<rparr>);
                             c4 = c3\<lparr>apHash := (apHash c3)[nat h := Some a]\<rparr>;
                             c5 = (if k > iMaxKey c4 then c4\<lparr>iMaxKey := k\<rparr> else c4)
                         in Inr (c5, Some a))))))"

text \<open>
  Step 1 of \<open>FetchPage\<close>, the hash lookup of a page number: the bucket of the key
  and the walk along its chain.
\<close>

definition FetchPage_lookup :: "PCache \<Rightarrow> int \<Rightarrow> (error + nat option) option" where
  "FetchPage_lookup c k =
     (case go_rem k (nHash c) of
        Inl e \<Rightarrow> Some (Inl e)
      | Inr h \<Rightarrow>
         (case slot (apHash c) h of
            Inl e \<Rightarrow> Some (Inl e)
          | Inr p0 \<Rightarrow> FetchPage_walk c k p0))"

text \<open>
  Steps 4 and 5 and the last block: recycle or allocate an entry and install it.
  Step 4 takes \<open>pGroup.lru.pLruPrev\<close> and hands it to \<open>RemoveFromHash\<close>, whatever
  its flags.
\<close>

definition FetchPage_create :: "PCache \<Rightarrow> int \<Rightarrow> (error + (PCache \<times> nat option)) option" where
  "FetchPage_create c1 k =
     (case (if int64 (nPage c1 + 1) \<ge> nMax c1 then
              (case RemoveFromHash c1 (lru_pLruPrev c1) of
                 None \<Rightarrow> None
               | Some (Inl e) \<Rightarrow> Some (Inl e)
               | Some (Inr c2) \<Rightarrow> Some (Inr (c2, lru_pLruPrev c1)))
            else Some (Inr (c1, None))) of
        None \<Rightarrow> None
      | Some (Inl e) \<Rightarrow> Some (Inl e)
      | Some (Inr s) \<Rightarrow>
         (case (if snd s = None then AllocPage (fst s) else Inr s) of
            Inl e \<Rightarrow> Some (Inl e)
          | Inr s1 \<Rightarrow> Some (FetchPage_install (fst s1) k (snd s1))))"

text \<open>
  \<open>FetchPage\<close> returns the entry; the model returns the cache it leaves behind as
  well. The function has no other exit than the two returns of an entry.
\<close>

definition FetchPage :: "PCache \<Rightarrow> int \<Rightarrow> (error + (PCache \<times> nat option)) option" where
  "FetchPage c k =
     (case FetchPage_lookup c k of
        None \<Rightarrow> None
      | Some (Inl e) \<Rightarrow> Some (Inl e)
      | Some (Inr (Some a)) \<Rightarrow> Some (Inr (c, Some a))
      | Some (Inr None) \<Rightarrow>
         (case (if nPage c \<ge> nHash c then ResizeHash c else Some (Inr c)) of
            None \<Rightarrow> None
          | Some (Inl e) \<Rightarrow> Some (Inl e)
          | Some (Inr c1) \<Rightarrow> FetchPage_create c1 k))"

section \<open>Notions of the specification\<close>

text \<open>
  \<open>first_index P xs\<close> is the smallest index of \<open>xs\<close> whose element satisfies \<open>P\<close>,
  and \<open>length xs\<close> when there is none: the index that the specification asks the
  binary search for.
\<close>

definition first_index :: "('a \<Rightarrow> bool) \<Rightarrow> 'a list \<Rightarrow> nat" where
  "first_index P xs = length (takeWhile (\<lambda>x. \<not> P x) xs)"

text \<open>A search result that is a hit: \<open>Search\<close> returned, with an offset that is not nil.\<close>

definition is_hit :: "(error + (32 word option \<times> MemPage option)) option \<Rightarrow> bool" where
  "is_hit r = (case r of Some (Inr (Some off, pg)) \<Rightarrow> True | _ \<Rightarrow> False)"

text \<open>A page with the given flag, page number, free bytes and cells.\<close>

definition mk_page :: "8 word \<Rightarrow> 16 word \<Rightarrow> 8 word \<Rightarrow> Cell list \<Rightarrow> MemPage" where
  "mk_page f n fr cs =
     \<lparr>ph = Some \<lparr>flag = f, freeOffset = 0, nCell = of_nat (length cs), pgno = n, nFree = fr,
                  parent = 0\<rparr>,
      cell = cs\<rparr>"

text \<open>
  Modelled from the spec: the source has no function that creates a tree. The empty
  tree is the tree at database creation: page 1 is its root, a leaf with no cell.
  \<open>fr\<close> is the number of free bytes of that page.
\<close>

definition empty_tree :: "8 word \<Rightarrow> BPlusTree" where
  "empty_tree fr =
     \<lparr>page = Some (mk_page LEAFPAGE 1 fr []),
      hm = (\<lambda>n. if n = 1 then Some (mk_page LEAFPAGE 1 fr []) else None)\<rparr>"

text \<open>A sequence of inserts, stopping at the first one that panics or does not return.\<close>

fun Inserts :: "env \<Rightarrow> BPlusTree \<Rightarrow> Payload list \<Rightarrow> (error + BPlusTree) option" where
  "Inserts E bptree [] = Some (Inr bptree)"
| "Inserts E bptree (pl # pls) =
     (case Insert E bptree pl of
        None \<Rightarrow> None
      | Some (Inl e) \<Rightarrow> Some (Inl e)
      | Some (Inr t) \<Rightarrow> Inserts E t pls)"

definition search_after ::
  "env \<Rightarrow> BPlusTree \<Rightarrow> Payload list \<Rightarrow> 32 word \<Rightarrow> (error + (32 word option \<times> MemPage option)) option" where
  "search_after E bptree pls k =
     (case Inserts E bptree pls of
        None \<Rightarrow> None
      | Some (Inl e) \<Rightarrow> Some (Inl e)
      | Some (Inr t) \<Rightarrow> Search t k)"

text \<open>The payload of one pair \<open>(key, payload_id)\<close>.\<close>

definition pair_payload :: "32 word \<Rightarrow> 32 word \<Rightarrow> Payload" where
  "pair_payload k v = \<lparr>pl_key = k, pl_size = 1, pl_entrys = [v]\<rparr>"

subsection \<open>Example pages and trees\<close>

text \<open>
  An environment in which a cell needs 8 bytes, the \<open>n\<close>-th new page is an empty
  leaf numbered \<open>n + 2\<close>, and the key handed up is 0.
\<close>

definition env8 :: env where
  "env8 = \<lparr>need = (\<lambda>d. 8), newpage = (\<lambda>n. Some (mk_page LEAFPAGE (of_nat n + 2) 100 [])),
            split_key = (\<lambda>n. 0)\<rparr>"

definition leaf_1 :: MemPage where
  "leaf_1 = mk_page LEAFPAGE 1 100 [\<lparr>ptr = 100, key = 1\<rparr>]"

definition leaf_10_20_30 :: MemPage where
  "leaf_10_20_30 =
     mk_page LEAFPAGE 1 100 [\<lparr>ptr = 100, key = 10\<rparr>, \<lparr>ptr = 101, key = 20\<rparr>, \<lparr>ptr = 102, key = 30\<rparr>]"

definition inter_5_9 :: MemPage where
  "inter_5_9 = mk_page INTERPAGE 1 100 [\<lparr>ptr = 10, key = 5\<rparr>, \<lparr>ptr = 11, key = 9\<rparr>]"

text \<open>A tree of one page: a root leaf with the key 50 and \<open>fr\<close> free bytes.\<close>

definition tree_50 :: "8 word \<Rightarrow> BPlusTree" where
  "tree_50 fr =
     \<lparr>page = Some (mk_page LEAFPAGE 1 fr [\<lparr>ptr = 7, key = 50\<rparr>]),
      hm = (\<lambda>n. if n = 1 then Some (mk_page LEAFPAGE 1 fr [\<lparr>ptr = 7, key = 50\<rparr>]) else None)\<rparr>"

text \<open>
  A tree in which the leaf stored as page 2 carries the number 1 in its header, so
  that \<open>parent()\<close> of the leaf names the interior root.
\<close>

definition tree_two_level :: BPlusTree where
  "tree_two_level =
     \<lparr>page = Some (mk_page INTERPAGE 1 100 [\<lparr>ptr = 2, key = 100\<rparr>]),
      hm = (\<lambda>n. if n = 1 then Some (mk_page INTERPAGE 1 100 [\<lparr>ptr = 2, key = 100\<rparr>])
                 else if n = 2 then Some (mk_page LEAFPAGE 1 100 [\<lparr>ptr = 7, key = 50\<rparr>])
                 else None)\<rparr>"

text \<open>
  A tree of two levels. The root, page 1, is an interior page with the cells
  (key 3, page 2) and (key 5, page 3); the 32-bit field that closes its header holds
  4, the number of the rightmost child (no function of the source reads that
  field). The leaves hold the keys 1, 2 (page 2), the key 4 (page 3) and the keys
  6, 7 (page 4): the keys of each child lie strictly between the separators around
  it, and the keys of the rightmost child lie above the last separator.
\<close>

definition root_3_5 :: MemPage where
  "root_3_5 =
     \<lparr>ph = Some \<lparr>flag = INTERPAGE, freeOffset = 0, nCell = 2, pgno = 1, nFree = 100, parent = 4\<rparr>,
      cell = [\<lparr>ptr = 2, key = 3\<rparr>, \<lparr>ptr = 3, key = 5\<rparr>]\<rparr>"

definition leaf_1_2 :: MemPage where
  "leaf_1_2 = mk_page LEAFPAGE 2 100 [\<lparr>ptr = 100, key = 1\<rparr>, \<lparr>ptr = 101, key = 2\<rparr>]"

definition leaf_4 :: MemPage where
  "leaf_4 = mk_page LEAFPAGE 3 100 [\<lparr>ptr = 100, key = 4\<rparr>]"

definition leaf_6_7 :: MemPage where
  "leaf_6_7 = mk_page LEAFPAGE 4 100 [\<lparr>ptr = 100, key = 6\<rparr>, \<lparr>ptr = 101, key = 7\<rparr>]"

definition tree_three_leaves :: BPlusTree where
  "tree_three_leaves =
     \<lparr>page = Some root_3_5,
      hm = (\<lambda>n. if n = 1 then Some root_3_5
                 else if n = 2 then Some leaf_1_2
                 else if n = 3 then Some leaf_4
                 else if n = 4 then Some leaf_6_7
                 else None)\<rparr>"

subsection \<open>The dirty list as a sequence\<close>

text \<open>
  \<open>nxt xs a\<close> and \<open>prv xs a\<close> are the neighbours of \<open>a\<close> in a sequence without
  repetition, \<open>head_of\<close> and \<open>last_of\<close> its ends, all with \<open>None\<close> for nil.
\<close>

fun nxt :: "nat list \<Rightarrow> nat \<Rightarrow> nat option" where
  "nxt (x # y # ys) a = (if a = x then Some y else nxt (y # ys) a)"
| "nxt _ a = None"

fun prv :: "nat list \<Rightarrow> nat \<Rightarrow> nat option" where
  "prv (x # y # ys) a = (if a = y then Some x else prv (y # ys) a)"
| "prv _ a = None"

definition head_of :: "nat list \<Rightarrow> nat option" where
  "head_of xs = (case xs of [] \<Rightarrow> None | x # _ \<Rightarrow> Some x)"

definition last_of :: "nat list \<Rightarrow> nat option" where
  "last_of xs = (if xs = [] then None else Some (last xs))"

text \<open>
  \<open>dirty_list c xs\<close>: the cache is at rest and its dirty list is the sequence \<open>xs\<close>
  of entries, newest first. \<open>pDirty\<close> and \<open>pDirtyTail\<close> are its ends, the entries of
  \<open>xs\<close> are linked in both directions, an entry is in \<open>xs\<close> exactly when its
  \<open>DIRTY\<close> flag is set, no entry is flagged both \<open>DIRTY\<close> and \<open>CLEAN\<close>, and an entry
  outside the list has no \<open>pDirtyPrev\<close> (the add block of \<open>ManageDirtyList\<close> does not
  assign that field).
\<close>

definition dirty_list :: "PCache \<Rightarrow> nat list \<Rightarrow> bool" where
  "dirty_list c xs \<longleftrightarrow>
     distinct xs \<and> pDirty c = head_of xs \<and> pDirtyTail c = last_of xs
     \<and> (\<forall>a \<in> set xs. a < length (mem c) \<and> pDirtyNext (mem c ! a) = nxt xs a)
     \<and> (\<forall>a \<in> set [0..<length (mem c)].
           pDirtyPrev (mem c ! a) = prv xs a
           \<and> (a \<in> set xs \<longleftrightarrow> flags (mem c ! a) AND PGHDR_DIRTY \<noteq> 0)
           \<and> \<not> (flags (mem c ! a) AND PGHDR_DIRTY \<noteq> 0 \<and> flags (mem c ! a) AND PGHDR_CLEAN \<noteq> 0))"

text \<open>
  A cache of three entries: entries 2 and 0 are dirty and form the dirty list
  (2 the newer), entry 1 is clean.
\<close>

definition cache3 :: PCache where
  "cache3 =
     \<lparr>nMax = 10, nPage = 0, nHash = 0, apHash = [], pFree = None,
      pDirty = Some 2, pDirtyTail = Some 0, iMaxKey = 0, lru_pLruPrev = None,
      mem = [new_PgHdr\<lparr>pDirtyPrev := Some 2, flags := PGHDR_DIRTY\<rparr>,
             new_PgHdr\<lparr>flags := PGHDR_CLEAN\<rparr>,
             new_PgHdr\<lparr>pDirtyNext := Some 0, flags := PGHDR_DIRTY\<rparr>]\<rparr>"

subsection \<open>The hash table as a sequence of chains\<close>

text \<open>
  \<open>chain m p xs\<close>: following \<open>pNext\<close> from the pointer \<open>p\<close> in the store \<open>m\<close> visits
  the entries \<open>xs\<close> and ends at nil.
\<close>

primrec chain :: "PgHdr list \<Rightarrow> nat option \<Rightarrow> nat list \<Rightarrow> bool" where
  "chain m p [] \<longleftrightarrow> p = None"
| "chain m p (a # as) \<longleftrightarrow> p = Some a \<and> a < length m \<and> chain m (pNext (m ! a)) as"

text \<open>
  \<open>hash_table c bs\<close>: the hash table of the cache is at rest and \<open>bs ! i\<close> is the
  chain of bucket \<open>i\<close>. The table has \<open>nHash\<close> slots, every entry is in the bucket of
  its page number, page numbers are not negative, and no two resident entries have
  the same page number. The resident entries are those of \<open>concat bs\<close>.
\<close>

definition hash_table :: "PCache \<Rightarrow> nat list list \<Rightarrow> bool" where
  "hash_table c bs \<longleftrightarrow>
     nHash c = int (length (apHash c)) \<and> length bs = length (apHash c)
     \<and> (\<forall>i \<in> set [0..<length bs].
           chain (mem c) (apHash c ! i) (bs ! i)
           \<and> (\<forall>a \<in> set (bs ! i). 0 \<le> iKey (mem c ! a) \<and> iKey (mem c ! a) mod nHash c = int i))
     \<and> distinct (map (\<lambda>a. iKey (mem c ! a)) (concat bs))"

text \<open>
  The new table while the loops of \<open>ResizeHash\<close> run: \<open>ns ! h\<close> is the chain of the
  new bucket \<open>h\<close>.
\<close>

definition new_table :: "int \<Rightarrow> PgHdr list \<Rightarrow> nat option list \<Rightarrow> nat list list \<Rightarrow> bool" where
  "new_table nNew m apNew ns \<longleftrightarrow>
     length apNew = nat nNew \<and> length ns = nat nNew
     \<and> (\<forall>h<nat nNew. chain m (apNew ! h) (ns ! h)
           \<and> (\<forall>a \<in> set (ns ! h). 0 \<le> iKey (m ! a) \<and> iKey (m ! a) mod nNew = int h))"

text \<open>
  A table of two buckets with three resident entries: the pages 4 and 6 in bucket
  0, the page 3 in bucket 1.
\<close>

definition cache_two :: PCache where
  "cache_two =
     \<lparr>nMax = 100, nPage = 3, nHash = 2, apHash = [Some 1, Some 0], pFree = None,
      pDirty = None, pDirtyTail = None, iMaxKey = 6, lru_pLruPrev = None,
      mem = [new_PgHdr\<lparr>iKey := 3\<rparr>, new_PgHdr\<lparr>iKey := 4, pNext := Some 2\<rparr>,
             new_PgHdr\<lparr>iKey := 6\<rparr>]\<rparr>"

text \<open>
  A table of 256 buckets that holds the 256 pages 0 to 255, one in each bucket, as
  256 fetches of these pages leave it.
\<close>

definition cache256 :: PCache where
  "cache256 =
     \<lparr>nMax = 1000, nPage = 256, nHash = 256, apHash = map Some [0..<256], pFree = None,
      pDirty = None, pDirtyTail = None, iMaxKey = 255, lru_pLruPrev = None,
      mem = map (\<lambda>i. new_PgHdr\<lparr>iKey := int i\<rparr>) [0..<256]\<rparr>"



section \<open>Properties of the tree\<close>

subsection \<open>The smallest index\<close>

lemma first_index_le: "first_index P xs \<le> length xs"
  by (simp add: first_index_def length_takeWhile_le)

lemma first_index_before: "i < first_index P xs \<Longrightarrow> \<not> P (xs ! i)"
  unfolding first_index_def
  by (metis nth_mem set_takeWhileD takeWhile_nth)

lemma first_index_at: "first_index P xs < length xs \<Longrightarrow> P (xs ! first_index P xs)"
  unfolding first_index_def
  using nth_length_takeWhile by blast

lemma first_index_unique:
  assumes "r \<le> length xs" "\<forall>i<r. \<not> P (xs ! i)" "r < length xs \<longrightarrow> P (xs ! r)"
  shows "first_index P xs = r"
proof -
  let ?m = "first_index P xs"
  have "?m < r \<Longrightarrow> False"
  proof -
    assume a: "?m < r"
    then have "?m < length xs" using assms(1) by simp
    then have "P (xs ! ?m)" by (rule first_index_at)
    then show False using assms(2) a by blast
  qed
  then have "\<not> ?m < r" by blast
  moreover have "\<not> r < ?m"
  proof
    assume a: "r < ?m"
    then have "r < length xs" using first_index_le[of P xs] by simp
    then show False using assms(3) first_index_before[OF a] by blast
  qed
  ultimately show ?thesis by simp
qed

subsection \<open>The binary search\<close>

text \<open>
  On a callback that does not panic below \<open>j\<close> and is monotone there, the loop
  returns the smallest index from \<open>i\<close> on at which the callback holds, or \<open>j\<close>.
\<close>

lemma sort_Search_loop_least:
  assumes "i \<le> j"
    and "\<forall>h<j. f h = Inr (g h)"
    and "\<forall>h h'. h \<le> h' \<and> h' < j \<and> g h \<longrightarrow> g h'"
  shows "\<exists>r. sort_Search_loop f i j = Inr r \<and> i \<le> r \<and> r \<le> j
            \<and> (\<forall>h. i \<le> h \<and> h < r \<longrightarrow> \<not> g h) \<and> (r < j \<longrightarrow> g r)"
  using assms
proof (induction f i j rule: sort_Search_loop.induct)
  case (1 f i j)
  show ?case
  proof (cases "i < j")
    case False
    with "1.prems" have "i = j" by simp
    then show ?thesis by (subst sort_Search_loop.simps) auto
  next
    case True
    define h where "h = (i + j) div 2"
    have hb: "i \<le> h" "h < j" using True by (simp_all add: h_def)
    have fh: "f h = Inr (g h)" using "1.prems"(2) hb by simp
    show ?thesis
    proof (cases "g h")
      case False
      have "\<exists>r. sort_Search_loop f (h + 1) j = Inr r \<and> h + 1 \<le> r \<and> r \<le> j
            \<and> (\<forall>h'. h + 1 \<le> h' \<and> h' < r \<longrightarrow> \<not> g h') \<and> (r < j \<longrightarrow> g r)"
        using "1.IH"(1)[OF True h_def fh, simplified] False hb "1.prems"(2,3) by simp
      then obtain r where r: "sort_Search_loop f (h + 1) j = Inr r" "h + 1 \<le> r" "r \<le> j"
        "\<forall>h'. h + 1 \<le> h' \<and> h' < r \<longrightarrow> \<not> g h'" "r < j \<longrightarrow> g r" by blast
      have low: "\<forall>h'. i \<le> h' \<and> h' < r \<longrightarrow> \<not> g h'"
      proof (intro allI impI)
        fix h' assume a: "i \<le> h' \<and> h' < r"
        show "\<not> g h'"
        proof (cases "h' \<le> h")
          case True
          then show ?thesis using False "1.prems"(3) hb by blast
        next
          case False
          then show ?thesis using r(4) a by simp
        qed
      qed
      have "sort_Search_loop f i j = Inr r"
        using True fh False r(1) by (subst sort_Search_loop.simps) (simp add: h_def Let_def)
      then show ?thesis using r hb low by auto
    next
      case gh: True
      have m: "\<forall>a b. a \<le> b \<and> b < h \<and> g a \<longrightarrow> g b" using "1.prems"(3) hb by auto
      have "\<exists>r. sort_Search_loop f i h = Inr r \<and> i \<le> r \<and> r \<le> h
            \<and> (\<forall>h'. i \<le> h' \<and> h' < r \<longrightarrow> \<not> g h') \<and> (r < h \<longrightarrow> g r)"
        using "1.IH"(2)[OF True h_def fh, simplified] gh hb "1.prems"(2) m by simp
      then obtain r where r: "sort_Search_loop f i h = Inr r" "i \<le> r" "r \<le> h"
        "\<forall>h'. i \<le> h' \<and> h' < r \<longrightarrow> \<not> g h'" "r < h \<longrightarrow> g r" by blast
      have "sort_Search_loop f i j = Inr r"
        using True fh gh r(1) by (subst sort_Search_loop.simps) (simp add: h_def Let_def)
      moreover have "r < j \<longrightarrow> g r" using r(3,5) gh hb by (cases "r = h") auto
      ultimately show ?thesis using r hb by auto
    qed
  qed
qed

lemma sort_Search_first_index:
  assumes "length (cell p) = n" and "sorted (map key (cell p))"
  shows "sort_Search n (cmp p k) = Inr (first_index (\<lambda>c. k \<le> key c) (cell p))"
proof -
  let ?g = "\<lambda>h. k \<le> key (cell p ! h)"
  have f: "\<forall>h<n. cmp p k h = Inr (?g h)"
    using assms(1) by (simp add: cmp_def cell_at_def)
  have mono: "\<forall>h h'. h \<le> h' \<and> h' < n \<and> ?g h \<longrightarrow> ?g h'"
  proof (intro allI impI)
    fix h h' assume a: "h \<le> h' \<and> h' < n \<and> k \<le> key (cell p ! h)"
    then have "map key (cell p) ! h \<le> map key (cell p) ! h'"
      using assms by (intro sorted_nth_mono) simp_all
    then show "k \<le> key (cell p ! h')" using a assms(1) by (auto intro: order_trans)
  qed
  obtain r where r: "sort_Search_loop (cmp p k) 0 n = Inr r" "r \<le> n"
    "\<forall>h. 0 \<le> h \<and> h < r \<longrightarrow> \<not> ?g h" "r < n \<longrightarrow> ?g r"
    using sort_Search_loop_least[of 0 n "cmp p k" ?g] f mono by blast
  have "first_index (\<lambda>c. k \<le> key c) (cell p) = r"
    using r assms(1) by (intro first_index_unique) simp_all
  then show ?thesis using r(1) by (simp add: sort_Search_def)
qed

subsection \<open>find on a page with ascending keys\<close>

lemma find_interior_in_range:
  assumes "ph p = Some h" "flag h = INTERPAGE" "length (cell p) = unat (nCell h)"
    "sorted (map key (cell p))" "first_index (\<lambda>c. k \<le> key c) (cell p) < unat (nCell h)"
  shows "MemPage_find p k = Inr (Some (ptr (cell p ! first_index (\<lambda>c. k \<le> key c) (cell p))), True)"
  using assms sort_Search_first_index[of p "unat (nCell h)" k]
  by (simp add: MemPage_find_def cell_at_def)

lemma find_leaf_in_range:
  assumes "ph p = Some h" "flag h = LEAFPAGE" "length (cell p) = unat (nCell h)"
    "sorted (map key (cell p))" "first_index (\<lambda>c. k \<le> key c) (cell p) < unat (nCell h)"
  shows "MemPage_find p k =
     (let c = cell p ! first_index (\<lambda>c. k \<le> key c) (cell p)
      in if key c = k then Inr (Some (ptr c), True) else Inr (None, False))"
  using assms sort_Search_first_index[of p "unat (nCell h)" k]
  by (simp add: MemPage_find_def cell_at_def LEAFPAGE_def INTERPAGE_def Let_def)

text \<open>
  A key above every key of the page takes the binary search to \<open>nCell\<close>, and both
  kinds of page then read the slot \<open>nCell\<close>.
\<close>

lemma find_past_end:
  assumes "ph p = Some h" "length (cell p) = unat (nCell h)"
    "sorted (map key (cell p))" "\<forall>c \<in> set (cell p). key c < k"
  shows "MemPage_find p k = Inl (IndexOutOfRange (int (unat (nCell h))) (unat (nCell h)))"
proof -
  have "first_index (\<lambda>c. k \<le> key c) (cell p) = length (cell p)"
    using assms(4) by (intro first_index_unique) (auto simp: not_le)
  then show ?thesis
    using assms sort_Search_first_index[of p "unat (nCell h)" k]
    by (simp add: MemPage_find_def cell_at_def)
qed

text \<open>
  C9: for every page and every key, find reads the cell array only at indices below
  nCell; a leaf searched for a key above every key of the page answers not-found
  without reading the slot nCell. The code does not do this: the guard of the leaf
  case is \<open>i <= nCell\<close>, and the interior case has no guard, so with \<open>i = nCell\<close>
  the slot \<open>nCell\<close> is read. On the leaf with the one key 1, the search for 5 reads
  index 1 of an array of length 1.
\<close>

theorem find_reads_slot_nCell:
  "MemPage_find leaf_1 5 = Inl (IndexOutOfRange 1 1)"
  by code_simp

text \<open>
  C4: on a leaf, the search finds the smallest index whose key is at least the
  searched key and reports a hit exactly when that key is equal, a miss otherwise,
  for every leaf and every key. Below the last key the code does so
  (\<open>find_leaf_in_range\<close>); for a key above every key of the leaf it reads the slot
  \<open>nCell\<close> instead of reporting the miss. On the leaf with the keys 10, 20, 30 the
  search for 40 panics, and is not the miss \<open>(nil, false)\<close>.
\<close>

theorem find_leaf_miss_past_end:
  "MemPage_find leaf_10_20_30 40 = Inl (IndexOutOfRange 3 3)
   \<and> MemPage_find leaf_10_20_30 40 \<noteq> Inr (None, False)"
  by code_simp

text \<open>
  C3, as stated: at an interior page the search takes the smallest index whose key
  is strictly greater than the searched key. On the interior page with the cells
  (5, page 10) and (9, page 11) and the key 5 that index is 1 and the child is page
  11; the code compares with \<open>>=\<close>, stops at index 0 and descends to page 10.
\<close>

theorem find_interior_strict_counterexample:
  "MemPage_find inter_5_9 5 = Inr (Some 10, True)
   \<and> first_index (\<lambda>c. 5 < key c) (cell inter_5_9) = 1
   \<and> ptr (cell inter_5_9 ! 1) = 11"
  by code_simp

text \<open>
  C3, amended: at an interior page with ascending keys, the search takes the
  smallest index \<open>i\<close> whose key is greater than or equal to the searched key, and
  when there is one (\<open>i < nCell\<close>) \<open>Search\<close> descends through \<open>cell[i].ptr\<close>.
\<close>

theorem Search_interior_descends:
  assumes "ph p = Some h" and "flag h = INTERPAGE" and "length (cell p) = unat (nCell h)"
    and "sorted (map key (cell p))"
    and "first_index (\<lambda>c. k \<le> key c) (cell p) < unat (nCell h)"
  shows "MemPage_find p k = Inr (Some (ptr (cell p ! first_index (\<lambda>c. k \<le> key c) (cell p))), True)
    \<and> Search_loop bptree k (Some p)
        = Search_loop bptree k (hm bptree (ptr (cell p ! first_index (\<lambda>c. k \<le> key c) (cell p))))"
proof -
  have f: "MemPage_find p k
      = Inr (Some (ptr (cell p ! first_index (\<lambda>c. k \<le> key c) (cell p))), True)"
    using assms by (rule find_interior_in_range)
  have "flag h \<noteq> LEAFPAGE" using assms(2) by (simp add: LEAFPAGE_def INTERPAGE_def)
  then have "Search_loop bptree k (Some p)
      = Search_loop bptree k (hm bptree (ptr (cell p ! first_index (\<lambda>c. k \<le> key c) (cell p))))"
    using assms(1,2) f by (subst Search_loop.simps) simp
  then show ?thesis using f by simp
qed

theorem Search_interior_descends_witness:
  "MemPage_find inter_5_9 7 = Inr (Some 11, True)
   \<and> Search_loop tree_two_level 7 (Some inter_5_9) = Search_loop tree_two_level 7 (hm tree_two_level 11)"
proof -
  have h1: "ph inter_5_9
      = Some \<lparr>flag = INTERPAGE, freeOffset = 0, nCell = 2, pgno = 1, nFree = 100, parent = 0\<rparr>"
    by (simp add: inter_5_9_def mk_page_def)
  have h2: "flag \<lparr>flag = INTERPAGE, freeOffset = 0, nCell = 2, pgno = 1, nFree = 100, parent = 0\<rparr>
      = INTERPAGE" by simp
  have h3: "length (cell inter_5_9)
      = unat (nCell \<lparr>flag = INTERPAGE, freeOffset = 0, nCell = 2, pgno = 1, nFree = 100, parent = 0\<rparr>)"
    by (simp add: inter_5_9_def mk_page_def)
  have h4: "sorted (map key (cell inter_5_9))" by code_simp
  have i: "first_index (\<lambda>c. 7 \<le> key c) (cell inter_5_9) = 1" by code_simp
  have h5: "first_index (\<lambda>c. 7 \<le> key c) (cell inter_5_9)
      < unat (nCell \<lparr>flag = INTERPAGE, freeOffset = 0, nCell = 2, pgno = 1, nFree = 100, parent = 0\<rparr>)"
    by (simp add: i)
  have p: "ptr (cell inter_5_9 ! Suc 0) = 11" by (simp add: inter_5_9_def mk_page_def)
  show ?thesis
    using Search_interior_descends[OF h1 h2 h3 h4 h5, of tree_two_level] by (simp add: i p)
qed

subsection \<open>Insert writes nothing\<close>

lemma MemPage_insert_blank:
  "MemPage_insert E n d (Some \<lparr>ph = None, cell = []\<rparr>) = Inl NilDereference"
  by (simp add: MemPage_insert_def MemPage_full_def)

text \<open>
  Whenever the loop of \<open>Insert\<close> returns without a panic, it returns the tree it was
  given: \<open>insert\<close> writes no page, and the branch that assigns the new root calls
  \<open>insert\<close> on a page without a header.
\<close>

lemma Insert_loop_unchanged:
  assumes "Insert_loop E bptree n k newpg ppg = Some r"
  shows "\<forall>t. r = Inr t \<longrightarrow> t = bptree"
  by (rule Insert_loop.raw_induct
        [where P = "\<lambda>E bptree n k newpg ppg r. \<forall>t. r = Inr t \<longrightarrow> t = bptree", OF _ assms])
     (auto simp: MemPage_insert_blank Let_def split: sum.splits if_splits)

lemma Insert_unchanged: "Insert E bptree pl = Some (Inr t) \<Longrightarrow> t = bptree"
  by (auto simp: Insert_def split: option.splits sum.splits if_splits dest: Insert_loop_unchanged)

lemma Inserts_unchanged: "Inserts E bptree pls = Some (Inr t) \<Longrightarrow> t = bptree"
proof (induction pls arbitrary: bptree)
  case Nil
  then show ?case by simp
next
  case (Cons pl pls)
  then show ?case
    by (fastforce split: option.splits sum.splits dest: Insert_unchanged)
qed

lemma Search_empty_tree: "Search (empty_tree fr) k = Some (Inl (IndexOutOfRange 0 0))"
proof -
  have "sort_Search 0 f = Inr 0" for f :: "nat \<Rightarrow> error + bool"
    by (simp add: sort_Search_def sort_Search_loop.simps)
  then have "MemPage_find (mk_page LEAFPAGE 1 fr []) k = Inl (IndexOutOfRange 0 0)"
    by (simp add: MemPage_find_def mk_page_def cell_at_def LEAFPAGE_def INTERPAGE_def)
  then show ?thesis
    unfolding Search_def empty_tree_def
    by (subst Search_loop.simps) (simp add: mk_page_def)
qed

text \<open>
  From the empty tree, no sequence of inserts is followed by a search that hits,
  whatever the environment, the pairs and the key.
\<close>

lemma search_after_empty_never_hits: "\<not> is_hit (search_after E (empty_tree fr) pls k)"
proof (cases "Inserts E (empty_tree fr) pls")
  case None
  then show ?thesis by (simp add: search_after_def is_hit_def)
next
  case (Some r)
  show ?thesis
  proof (cases r)
    case (Inl e)
    with Some show ?thesis by (simp add: search_after_def is_hit_def)
  next
    case (Inr t)
    with Some have "t = empty_tree fr" by (auto dest: Inserts_unchanged)
    with Some Inr show ?thesis by (simp add: search_after_def is_hit_def Search_empty_tree)
  qed
qed

text \<open>
  The same on a tree whose search does not panic: the root leaf holds the key 50 and
  has 3 free bytes, \<open>Insert\<close> of the key 42 returns, and the tree is the same and the
  search for 42 misses.
\<close>

lemma Insert_stores_nothing_example:
  "Insert env8 (tree_50 3) (pair_payload 42 7) = Some (Inr (tree_50 3))
   \<and> \<not> is_hit (search_after env8 (tree_50 3) [pair_payload 42 7] 42)"
  by code_simp

text \<open>
  C1: for every sequence of inserts of distinct pairs into the empty tree, a
  following search of a key returns Some exactly when a pair with that key was
  inserted. The code does not do this. After the insert of the pair (42, 7) into
  the empty tree the search for 42 is no hit: \<open>Insert\<close> starts with \<open>Search\<close>, which
  reads slot 0 of the empty root leaf and panics, and no path of \<open>Insert\<close> and
  \<open>insert\<close> writes a cell into a page.
\<close>

theorem search_after_insert_42:
  "search_after env8 (empty_tree 100) [pair_payload 42 7] 42 = Some (Inl (IndexOutOfRange 0 0))
   \<and> \<not> (is_hit (search_after env8 (empty_tree 100) [pair_payload 42 7] 42)
          \<longleftrightarrow> 42 \<in> pl_key ` set [pair_payload 42 7])"
  by code_simp

text \<open>
  C2: when the root itself splits, Insert allocates a new interior root with the new
  right sibling as rightmost child and the one cell (separator, old root), and
  updates the root page number. The code does not do this. On the tree whose root
  is a leaf with the key 50 and room for the new cell, \<open>insert\<close> answers with a new
  page (the split); \<open>parent()\<close> of the root returns the root's own number, so the
  separator cell is handed to the leaf itself and \<open>full\<close> panics.
\<close>

theorem Insert_root_split_panics:
  "Insert env8 (tree_50 100) (pair_payload 42 7) = Some (Inl (Panic ''full error''))"
  by code_simp

text \<open>
  Where the branch of the new root is reached (the header of the leaf names the
  interior root), the new root is \<open>&MemPage{}\<close>, a page without a header, and the
  first \<open>insert\<close> into it panics. By \<open>Insert_unchanged\<close> no \<open>Insert\<close> that returns
  has changed the root.
\<close>

lemma Insert_new_root_panics:
  "Insert env8 tree_two_level (pair_payload 42 7) = Some (Inl NilDereference)"
  by code_simp

subsection \<open>Insert of a key that is found\<close>

text \<open>A root leaf with ascending keys that holds the key is a tree in which the search hits.\<close>

lemma Search_root_leaf_hit:
  assumes "page bptree = Some p" and "ph p = Some h" and "flag h = LEAFPAGE"
    and "length (cell p) = unat (nCell h)" and "sorted (map key (cell p))"
    and "k \<in> key ` set (cell p)"
  shows "is_hit (Search bptree k)"
proof -
  let ?i = "first_index (\<lambda>c. k \<le> key c) (cell p)"
  obtain j where j: "j < length (cell p)" "key (cell p ! j) = k"
    using assms(6) by (auto simp: in_set_conv_nth)
  have lt: "?i < length (cell p)"
  proof (rule ccontr)
    assume "\<not> ?i < length (cell p)"
    then have "j < ?i" using j(1) by simp
    then show False using first_index_before[of j "\<lambda>c. k \<le> key c" "cell p"] j(2) by simp
  qed
  have ge: "k \<le> key (cell p ! ?i)" using first_index_at[OF lt] .
  have "\<not> j < ?i" using first_index_before[of j "\<lambda>c. k \<le> key c" "cell p"] j(2) by auto
  then have "map key (cell p) ! ?i \<le> map key (cell p) ! j"
    using assms(5) j(1) by (intro sorted_nth_mono) simp_all
  then have "key (cell p ! ?i) \<le> k" using lt j by simp
  then have eq: "key (cell p ! ?i) = k" using ge by simp
  have "MemPage_find p k = Inr (Some (ptr (cell p ! ?i)), True)"
    using find_leaf_in_range[OF assms(2,3,4,5), of k] lt assms(4) eq by (simp add: Let_def)
  then show ?thesis
    unfolding Search_def using assms(1,2,3)
    by (subst Search_loop.simps) (simp add: is_hit_def)
qed

text \<open>
  \<open>Insert\<close> starts with \<open>Search\<close> and returns at once, with the tree it was given,
  when the search hits. It never looks at the payload ids of its argument.
\<close>

lemma Insert_hit_noop:
  "is_hit (Search bptree (pl_key pl)) \<Longrightarrow> Insert E bptree pl = Some (Inr bptree)"
  by (auto simp: Insert_def is_hit_def split: option.splits sum.splits)

lemma Insert_root_leaf_noop:
  assumes "page bptree = Some p" and "ph p = Some h" and "flag h = LEAFPAGE"
    and "length (cell p) = unat (nCell h)" and "sorted (map key (cell p))"
    and "pl_key pl \<in> key ` set (cell p)"
  shows "Insert E bptree pl = Some (Inr bptree)"
  using Search_root_leaf_hit[OF assms] by (rule Insert_hit_noop)

lemma Insert_root_leaf_noop_example:
  "Insert env8 (tree_50 100) (pair_payload 50 7) = Some (Inr (tree_50 100))"
  by code_simp

text \<open>
  On a tree whose root is an interior page with ascending keys, a key above every
  key of the root belongs to the rightmost child. \<open>Search\<close> does not go there: the
  binary search answers \<open>nCell\<close>, \<open>find\<close> reads the slot \<open>nCell\<close> of the root, and
  \<open>Insert\<close> panics before it has looked at any leaf.
\<close>

lemma Search_above_separators_panics:
  assumes "page bptree = Some p" and "ph p = Some h" and "flag h = INTERPAGE"
    and "length (cell p) = unat (nCell h)" and "sorted (map key (cell p))"
    and "\<forall>c \<in> set (cell p). key c < k"
  shows "Search bptree k = Some (Inl (IndexOutOfRange (int (unat (nCell h))) (unat (nCell h))))"
  unfolding Search_def using assms(1,2,3) find_past_end[OF assms(2,4,5,6)]
  by (subst Search_loop.simps) (simp add: LEAFPAGE_def INTERPAGE_def)

lemma Insert_above_separators_panics:
  assumes "page bptree = Some p" and "ph p = Some h" and "flag h = INTERPAGE"
    and "length (cell p) = unat (nCell h)" and "sorted (map key (cell p))"
    and "\<forall>c \<in> set (cell p). key c < pl_key pl"
  shows "Insert E bptree pl = Some (Inl (IndexOutOfRange (int (unat (nCell h))) (unat (nCell h))))"
  using Search_above_separators_panics[OF assms] by (simp add: Insert_def)

text \<open>
  C8: insert is idempotent on a pair: inserting a pair that is already present
  leaves the tree unchanged, for every tree state containing that pair. The code
  does not do this. A leaf cell holds a key and the offset of its payload, and no
  function of the source reads a payload, so a tree contains a pair when one of
  its leaves holds a cell with the key of the pair. In the tree of two levels the
  leaf stored as page 4, the rightmost child of the root, holds the key 6; the
  insert of a pair with the key 6 does not return with the tree unchanged but
  panics, reading slot 2 of the two cells of the root.
\<close>

theorem Insert_present_rightmost_panics:
  "Insert env8 tree_three_leaves (pair_payload 6 9) = Some (Inl (IndexOutOfRange 2 2))
   \<and> Insert env8 tree_three_leaves (pair_payload 6 9) \<noteq> Some (Inr tree_three_leaves)
   \<and> hm tree_three_leaves 4 = Some leaf_6_7
   \<and> pl_key (pair_payload 6 9) \<in> key ` set (cell leaf_6_7)"
proof -
  have "Insert env8 tree_three_leaves (pair_payload 6 9) = Some (Inl (IndexOutOfRange 2 2))"
    by code_simp
  moreover have "hm tree_three_leaves 4 = Some leaf_6_7"
    by (simp add: tree_three_leaves_def)
  moreover have "pl_key (pair_payload 6 9) \<in> key ` set (cell leaf_6_7)"
    by (simp add: pair_payload_def leaf_6_7_def mk_page_def)
  ultimately show ?thesis by simp
qed

section \<open>Properties of the cache\<close>

subsection \<open>Neighbours in a sequence\<close>

lemma nxt_in: "nxt xs a = Some n \<Longrightarrow> n \<in> set xs \<and> a \<in> set xs"
  by (induction xs a rule: nxt.induct) (auto split: if_splits)

lemma prv_in: "prv xs a = Some q \<Longrightarrow> q \<in> set xs \<and> a \<in> set xs"
  by (induction xs a rule: prv.induct) (auto split: if_splits)

lemma nxt_neq: "distinct xs \<Longrightarrow> nxt xs a = Some n \<Longrightarrow> n \<noteq> a"
  by (induction xs a rule: nxt.induct) (auto split: if_splits dest: nxt_in)

lemma prv_neq: "distinct xs \<Longrightarrow> prv xs a = Some q \<Longrightarrow> q \<noteq> a"
  by (induction xs a rule: prv.induct) (auto split: if_splits dest: prv_in)

lemma nxt_notin: "a \<notin> set xs \<Longrightarrow> nxt xs a = None"
  by (induction xs a rule: nxt.induct) auto

lemma prv_notin: "a \<notin> set xs \<Longrightarrow> prv xs a = None"
  by (induction xs a rule: prv.induct) auto

lemma nxt_not_head: "nxt (y # ys) q = Some n \<Longrightarrow> y \<notin> set ys \<Longrightarrow> distinct ys \<Longrightarrow> n \<noteq> y"
proof (induction "y # ys" q arbitrary: y ys rule: nxt.induct)
  case (1 x y ys a)
  then show ?case by (auto split: if_splits dest: nxt_in)
qed auto

lemma prv_nxt: "distinct xs \<Longrightarrow> prv xs a = Some q \<longleftrightarrow> nxt xs q = Some a"
  by (induction xs a rule: prv.induct)
     (auto simp: head_of_def dest: nxt_in prv_in nxt_not_head)

lemma prv_None: "distinct xs \<Longrightarrow> a \<in> set xs \<Longrightarrow> prv xs a = None \<longleftrightarrow> head_of xs = Some a"
  by (induction xs a rule: prv.induct) (auto simp: head_of_def prv_notin)

lemma nxt_None: "distinct xs \<Longrightarrow> a \<in> set xs \<Longrightarrow> nxt xs a = None \<longleftrightarrow> last_of xs = Some a"
  by (induction xs a rule: nxt.induct) (auto simp: last_of_def)

lemma nxt_Cons: "a \<notin> set xs \<Longrightarrow> nxt (a # xs) b = (if b = a then head_of xs else nxt xs b)"
  by (cases xs) (auto simp: head_of_def)

lemma prv_Cons: "a \<notin> set xs \<Longrightarrow> prv (a # xs) b = (if head_of xs = Some b then Some a else prv xs b)"
  by (cases xs) (auto simp: head_of_def)

lemma nxt_remove1:
  "distinct xs \<Longrightarrow> b \<noteq> a \<Longrightarrow>
     nxt (remove1 a xs) b = (if nxt xs b = Some a then nxt xs a else nxt xs b)"
proof (induction xs b rule: nxt.induct)
  case (1 x y ys b)
  then show ?case
    by (cases ys) (auto simp: nxt_notin dest: nxt_in)
qed auto

lemma prv_remove1:
  "distinct xs \<Longrightarrow> b \<noteq> a \<Longrightarrow>
     prv (remove1 a xs) b = (if prv xs b = Some a then prv xs a else prv xs b)"
proof (induction xs b rule: prv.induct)
  case (1 x y ys b)
  then show ?case
    by (cases ys) (auto simp: prv_notin dest: prv_in)
qed auto

lemma head_of_remove1:
  "distinct xs \<Longrightarrow> head_of (remove1 a xs) = (if head_of xs = Some a then nxt xs a else head_of xs)"
proof (cases xs)
  case Nil
  then show ?thesis by (simp add: head_of_def)
next
  case (Cons x ys)
  then show ?thesis by (cases ys) (auto simp: head_of_def)
qed

lemma last_of_remove1:
  "distinct xs \<Longrightarrow> last_of (remove1 a xs) = (if last_of xs = Some a then prv xs a else last_of xs)"
proof (induction xs a rule: prv.induct)
  case (1 x y ys a)
  then show ?case by (cases ys) (auto simp: last_of_def prv_notin)
qed (auto simp: last_of_def)

lemma head_of_in: "head_of xs = Some n \<Longrightarrow> n \<in> set xs"
  by (cases xs) (auto simp: head_of_def)

lemma last_of_Cons: "last_of (a # xs) = (if xs = [] then Some a else last_of xs)"
  by (simp add: last_of_def)

lemma head_of_None: "head_of xs = None \<longleftrightarrow> xs = []"
  by (cases xs) (auto simp: head_of_def)

subsection \<open>The flag bits\<close>

lemma clean_iff: "f AND PGHDR_CLEAN \<noteq> 0 \<longleftrightarrow> bit f 0" for f :: "16 word"
  using and_exp_eq_0_iff_not_bit[of f 0] by (simp add: PGHDR_CLEAN_def)

lemma dirty_iff: "f AND PGHDR_DIRTY \<noteq> 0 \<longleftrightarrow> bit f 1" for f :: "16 word"
  using and_exp_eq_0_iff_not_bit[of f 1] by (simp add: PGHDR_DIRTY_def)

lemma bit0_after_dirty: "bit (f XOR (PGHDR_DIRTY OR PGHDR_CLEAN)) 0 \<longleftrightarrow> \<not> bit f 0" for f :: "16 word"
  by (simp add: PGHDR_CLEAN_def PGHDR_DIRTY_def bit_simps)

lemma bit1_after_dirty: "bit (f XOR (PGHDR_DIRTY OR PGHDR_CLEAN)) (Suc 0) \<longleftrightarrow> \<not> bit f (Suc 0)" for f :: "16 word"
  by (simp add: PGHDR_CLEAN_def PGHDR_DIRTY_def bit_simps)

lemma bit1_after_clean:
  "\<not> bit ((f AND NOT (PGHDR_DIRTY OR PGHDR_NEED_SYNC OR PGHDR_WRITEABLE)) OR PGHDR_CLEAN) (Suc 0)"
  for f :: "16 word"
  by (simp add: PGHDR_CLEAN_def PGHDR_DIRTY_def PGHDR_NEED_SYNC_def PGHDR_WRITEABLE_def bit_simps)

lemma bit0_after_clean:
  "bit ((f AND NOT (PGHDR_DIRTY OR PGHDR_NEED_SYNC OR PGHDR_WRITEABLE)) OR PGHDR_CLEAN) 0"
  for f :: "16 word"
  by (simp add: PGHDR_CLEAN_def PGHDR_DIRTY_def PGHDR_NEED_SYNC_def PGHDR_WRITEABLE_def bit_simps)

subsection \<open>The dirty list\<close>

lemma ADD_bits:
  "PCACHE_DIRTYLIST_ADD AND PCACHE_DIRTYLIST_REMOVE = 0"
  "PCACHE_DIRTYLIST_ADD AND PCACHE_DIRTYLIST_ADD \<noteq> 0"
  "PCACHE_DIRTYLIST_REMOVE AND PCACHE_DIRTYLIST_REMOVE \<noteq> 0"
  "PCACHE_DIRTYLIST_REMOVE AND PCACHE_DIRTYLIST_ADD = 0"
  "PCACHE_DIRTYLIST_ADD \<noteq> 0" "PCACHE_DIRTYLIST_REMOVE \<noteq> 0"
  by (simp_all add: PCACHE_DIRTYLIST_ADD_def PCACHE_DIRTYLIST_REMOVE_def)

text \<open>The state after the add block of \<open>ManageDirtyList\<close>, written out.\<close>

lemma ManageDirtyList_add_eq:
  assumes "a < length (mem c)" and "\<forall>n. pDirty c = Some n \<longrightarrow> n < length (mem c)"
  shows "ManageDirtyList_add c (Some a) =
     Inr (c\<lparr>pDirty := Some a,
            pDirtyTail := (if pDirty c = None then Some a else pDirtyTail c),
            mem := (case pDirty c of
                      None \<Rightarrow> (mem c)[a := (mem c ! a)\<lparr>pDirtyNext := None\<rparr>]
                    | Some n \<Rightarrow> ((mem c)[a := (mem c ! a)\<lparr>pDirtyNext := Some n\<rparr>])
                         [n := (((mem c)[a := (mem c ! a)\<lparr>pDirtyNext := Some n\<rparr>]) ! n)\<lparr>pDirtyPrev := Some a\<rparr>])\<rparr>)"
  using assms
  by (cases "pDirty c") (simp_all add: ManageDirtyList_add_def load_def store_def Let_def)


lemma MakeDirty_keeps_dirty_list:
  assumes inv: "dirty_list c xs" and a: "a < length (mem c)"
  shows "\<exists>c1. MakeDirty c (Some a) = Inr c1 \<and> length (mem c1) = length (mem c)
           \<and> dirty_list c1 (if flags (mem c ! a) AND PGHDR_CLEAN \<noteq> 0 then a # xs else xs)
           \<and> flags (mem c1 ! a)
               = (if flags (mem c ! a) AND PGHDR_CLEAN \<noteq> 0
                  then flags (mem c ! a) XOR (PGHDR_DIRTY OR PGHDR_CLEAN) else flags (mem c ! a))
           \<and> (\<forall>b<length (mem c). b \<noteq> a \<longrightarrow> flags (mem c1 ! b) = flags (mem c ! b))
           \<and> (flags (mem c ! a) AND PGHDR_CLEAN = 0 \<longrightarrow> c1 = c)"
proof (cases "flags (mem c ! a) AND PGHDR_CLEAN \<noteq> 0")
  case False
  then show ?thesis using inv a by (simp add: MakeDirty_def load_def)
next
  case True
  let ?m = "mem c"
  let ?f = "flags (?m ! a) XOR (PGHDR_DIRTY OR PGHDR_CLEAN)"
  have nd: "\<not> bit (flags (?m ! a)) (Suc 0)" and cl: "bit (flags (?m ! a)) 0"
    using inv a True by (auto simp: dirty_list_def clean_iff dirty_iff)
  have notin: "a \<notin> set xs" using inv a nd by (auto simp: dirty_list_def dirty_iff)
  have hd: "pDirty c = head_of xs" and tl: "pDirtyTail c = last_of xs" and dist: "distinct xs"
    using inv by (simp_all add: dirty_list_def)
  have inr: "\<forall>b \<in> set xs. b < length ?m" using inv by (simp add: dirty_list_def)
  define c0 where "c0 = store c a (\<lambda>x. x\<lparr>flags := flags x XOR (PGHDR_DIRTY OR PGHDR_CLEAN)\<rparr>)"
  have c0: "mem c0 = ?m[a := (?m ! a)\<lparr>flags := ?f\<rparr>]" "pDirty c0 = head_of xs"
    "pDirtyTail c0 = last_of xs"
    using hd tl by (simp_all add: c0_def store_def)
  have hdr: "\<forall>n. pDirty c0 = Some n \<longrightarrow> n < length (mem c0)"
    using c0 inr by (auto dest: head_of_in)
  obtain c1 where c1: "ManageDirtyList_add c0 (Some a) = Inr c1"
    and p1: "pDirty c1 = Some a"
    and t1: "pDirtyTail c1 = (if xs = [] then Some a else last_of xs)"
    and m1: "mem c1 = (case head_of xs of
                      None \<Rightarrow> (mem c0)[a := (mem c0 ! a)\<lparr>pDirtyNext := None\<rparr>]
                    | Some n \<Rightarrow> ((mem c0)[a := (mem c0 ! a)\<lparr>pDirtyNext := Some n\<rparr>])
                         [n := (((mem c0)[a := (mem c0 ! a)\<lparr>pDirtyNext := Some n\<rparr>]) ! n)\<lparr>pDirtyPrev := Some a\<rparr>])"
    using ManageDirtyList_add_eq[of a c0, OF _ hdr] a c0 by (simp add: head_of_None)
  have len: "length (mem c1) = length ?m" using m1 c0 by (simp split: option.splits)
  have at: "\<forall>b<length ?m. mem c1 ! b =
       (if b = a then (?m ! a)\<lparr>flags := ?f, pDirtyNext := head_of xs\<rparr>
        else if head_of xs = Some b then (?m ! b)\<lparr>pDirtyPrev := Some a\<rparr> else ?m ! b)"
    using m1 c0 a notin by (auto simp: nth_list_update split: option.splits dest: head_of_in)
  have md: "MakeDirty c (Some a) = Inr c1"
    using a True c1 by (simp add: MakeDirty_def load_def ManageDirtyList_def ADD_bits c0_def)
  have "dirty_list c1 (a # xs)"
    unfolding dirty_list_def
  proof (intro conjI ballI)
    show "distinct (a # xs)" using dist notin by simp
    show "pDirty c1 = head_of (a # xs)" using p1 by (simp add: head_of_def)
    show "pDirtyTail c1 = last_of (a # xs)" using t1 by (simp add: last_of_Cons)
  next
    fix b assume b: "b \<in> set (a # xs)"
    then have bl: "b < length ?m" using a inr by auto
    then show "b < length (mem c1)" using len by simp
    show "pDirtyNext (mem c1 ! b) = nxt (a # xs) b"
    proof (cases "b = a")
      case True
      then show ?thesis using at a notin by (simp add: nxt_Cons)
    next
      case False
      then have "b \<in> set xs" using b by simp
      then have "pDirtyNext (?m ! b) = nxt xs b" using inv by (simp add: dirty_list_def)
      then show ?thesis using at bl False notin by (simp add: nxt_Cons)
    qed
  next
    fix b assume "b \<in> set [0..<length (mem c1)]"
    then have bl: "b < length ?m" using len by simp
    have old: "pDirtyPrev (?m ! b) = prv xs b"
      "b \<in> set xs \<longleftrightarrow> bit (flags (?m ! b)) (Suc 0)"
      "\<not> (bit (flags (?m ! b)) (Suc 0) \<and> bit (flags (?m ! b)) 0)"
      using inv bl by (auto simp: dirty_list_def dirty_iff clean_iff)
    show "pDirtyPrev (mem c1 ! b) = prv (a # xs) b"
      using at bl old(1) notin by (auto simp: prv_Cons prv_notin dest: head_of_in)
    show "(b \<in> set (a # xs)) = (flags (mem c1 ! b) AND PGHDR_DIRTY \<noteq> 0)"
      using at bl old(2) nd by (auto simp: dirty_iff bit1_after_dirty)
    show "\<not> (flags (mem c1 ! b) AND PGHDR_DIRTY \<noteq> 0 \<and> flags (mem c1 ! b) AND PGHDR_CLEAN \<noteq> 0)"
      using at bl old(3) cl by (auto simp: dirty_iff clean_iff bit0_after_dirty)
  qed
  moreover have "flags (mem c1 ! a) = ?f" using at a by simp
  moreover have "\<forall>b<length ?m. b \<noteq> a \<longrightarrow> flags (mem c1 ! b) = flags (?m ! b)"
    using at by auto
  ultimately show ?thesis using md len True by (intro exI[of _ c1]) simp
qed


lemma nxt_nxt_neq: "distinct xs \<Longrightarrow> nxt xs a = Some n \<Longrightarrow> nxt xs n \<noteq> Some a"
  by (induction xs a rule: nxt.induct) (auto split: if_splits dest: nxt_in)

lemma nxt_prv_neq: "distinct xs \<Longrightarrow> nxt xs a = Some n \<Longrightarrow> prv xs a \<noteq> Some n"
  by (simp add: prv_nxt nxt_nxt_neq)

text \<open>The state after the remove block, entry by entry.\<close>

lemma ManageDirtyList_remove_eq:
  assumes a: "a < length (mem c)"
    and nx: "\<forall>n. pDirtyNext (mem c ! a) = Some n \<longrightarrow> n < length (mem c) \<and> n \<noteq> a"
    and pr: "\<forall>q. pDirtyPrev (mem c ! a) = Some q \<longrightarrow> q < length (mem c) \<and> q \<noteq> a"
    and ne: "\<forall>n. pDirtyNext (mem c ! a) = Some n \<longrightarrow> pDirtyPrev (mem c ! a) \<noteq> Some n"
  shows "\<exists>c'. ManageDirtyList_remove c (Some a) = Inr c'
      \<and> pDirty c' = (if pDirtyPrev (mem c ! a) = None then pDirtyNext (mem c ! a) else pDirty c)
      \<and> pDirtyTail c' = (if pDirtyNext (mem c ! a) = None then pDirtyPrev (mem c ! a) else pDirtyTail c)
      \<and> length (mem c') = length (mem c)
      \<and> (\<forall>b<length (mem c). mem c' ! b =
            (if b = a then (mem c ! a)\<lparr>pDirtyNext := None, pDirtyPrev := None\<rparr>
             else if pDirtyNext (mem c ! a) = Some b then (mem c ! b)\<lparr>pDirtyPrev := pDirtyPrev (mem c ! a)\<rparr>
             else if pDirtyPrev (mem c ! a) = Some b then (mem c ! b)\<lparr>pDirtyNext := pDirtyNext (mem c ! a)\<rparr>
             else mem c ! b))"
proof (cases "pDirtyNext (mem c ! a)")
  case None
  show ?thesis
  proof (cases "pDirtyPrev (mem c ! a)")
    case pn: None
    show ?thesis using a None pn
      by (simp add: ManageDirtyList_remove_def load_def store_def Let_def)
  next
    case (Some q)
    then have "q < length (mem c)" "q \<noteq> a" using pr by auto
    then show ?thesis using a None Some
      by (simp add: ManageDirtyList_remove_def load_def store_def Let_def nth_list_update)
  qed
next
  case (Some n)
  then have n: "n < length (mem c)" "n \<noteq> a" using nx by auto
  show ?thesis
  proof (cases "pDirtyPrev (mem c ! a)")
    case None
    show ?thesis using a Some None n
      by (simp add: ManageDirtyList_remove_def load_def store_def Let_def nth_list_update)
  next
    case sq: (Some q)
    then have q: "q < length (mem c)" "q \<noteq> a" "q \<noteq> n" using pr ne Some by auto
    show ?thesis using a Some sq n q
      by (simp add: ManageDirtyList_remove_def load_def store_def Let_def nth_list_update)
  qed
qed


lemma MakeClean_keeps_dirty_list:
  assumes inv: "dirty_list c xs" and a: "a < length (mem c)"
  shows "\<exists>c2. MakeClean c (Some a) = Inr c2 \<and> length (mem c2) = length (mem c)
           \<and> dirty_list c2 (remove1 a xs)
           \<and> (\<forall>b<length (mem c). b \<noteq> a \<longrightarrow> flags (mem c2 ! b) = flags (mem c ! b))
           \<and> (a \<in> set xs \<longrightarrow> flags (mem c2 ! a) AND PGHDR_CLEAN \<noteq> 0)
           \<and> flags (mem c2 ! a)
               = (if flags (mem c ! a) AND PGHDR_DIRTY \<noteq> 0
                  then (flags (mem c ! a) AND NOT (PGHDR_DIRTY OR PGHDR_NEED_SYNC OR PGHDR_WRITEABLE))
                         OR PGHDR_CLEAN
                  else flags (mem c ! a))
           \<and> (flags (mem c ! a) AND PGHDR_DIRTY = 0 \<longrightarrow> c2 = c)"
proof (cases "flags (mem c ! a) AND PGHDR_DIRTY \<noteq> 0")
  case False
  then have "a \<notin> set xs" using inv a by (auto simp: dirty_list_def)
  then have "remove1 a xs = xs" by (simp add: remove1_idem)
  then show ?thesis using inv a False \<open>a \<notin> set xs\<close> by (simp add: MakeClean_def load_def)
next
  case True
  let ?m = "mem c"
  let ?f = "(flags (?m ! a) AND NOT (PGHDR_DIRTY OR PGHDR_NEED_SYNC OR PGHDR_WRITEABLE)) OR PGHDR_CLEAN"
  have ain: "a \<in> set xs" using inv a True by (auto simp: dirty_list_def)
  have hd: "pDirty c = head_of xs" and tl: "pDirtyTail c = last_of xs" and dist: "distinct xs"
    using inv by (simp_all add: dirty_list_def)
  have inr: "\<forall>b \<in> set xs. b < length ?m" using inv by (simp add: dirty_list_def)
  have nxa: "pDirtyNext (?m ! a) = nxt xs a" using inv ain by (simp add: dirty_list_def)
  have pra: "pDirtyPrev (?m ! a) = prv xs a" using inv a by (simp add: dirty_list_def)
  have h1: "\<forall>n. pDirtyNext (?m ! a) = Some n \<longrightarrow> n < length ?m \<and> n \<noteq> a"
    using nxa inr dist by (auto dest: nxt_in nxt_neq)
  have h2: "\<forall>q. pDirtyPrev (?m ! a) = Some q \<longrightarrow> q < length ?m \<and> q \<noteq> a"
    using pra inr dist by (auto dest: prv_in prv_neq)
  have h3: "\<forall>n. pDirtyNext (?m ! a) = Some n \<longrightarrow> pDirtyPrev (?m ! a) \<noteq> Some n"
    using nxa pra dist by (auto dest: nxt_prv_neq)
  obtain c1 where c1: "ManageDirtyList_remove c (Some a) = Inr c1"
    and p1: "pDirty c1 = (if prv xs a = None then nxt xs a else head_of xs)"
    and t1: "pDirtyTail c1 = (if nxt xs a = None then prv xs a else last_of xs)"
    and l1: "length (mem c1) = length ?m"
    and at1: "\<forall>b<length ?m. mem c1 ! b =
            (if b = a then (?m ! a)\<lparr>pDirtyNext := None, pDirtyPrev := None\<rparr>
             else if nxt xs a = Some b then (?m ! b)\<lparr>pDirtyPrev := prv xs a\<rparr>
             else if prv xs a = Some b then (?m ! b)\<lparr>pDirtyNext := nxt xs a\<rparr>
             else ?m ! b)"
    using ManageDirtyList_remove_eq[OF a h1 h2 h3] nxa pra hd tl by auto
  define c2 where "c2 = store (store c1 a
       (\<lambda>x. x\<lparr>flags := flags x AND NOT (PGHDR_DIRTY OR PGHDR_NEED_SYNC OR PGHDR_WRITEABLE)\<rparr>))
        a (\<lambda>x. x\<lparr>flags := flags x OR PGHDR_CLEAN\<rparr>)"
  have mc: "MakeClean c (Some a) = Inr c2"
    using a True c1 by (simp add: MakeClean_def load_def ManageDirtyList_def ADD_bits c2_def)
  have l2: "length (mem c2) = length ?m" using l1 by (simp add: c2_def store_def)
  have p2: "pDirty c2 = pDirty c1" "pDirtyTail c2 = pDirtyTail c1" by (simp_all add: c2_def store_def)
  have at: "\<forall>b<length ?m. mem c2 ! b =
            (if b = a then (?m ! a)\<lparr>pDirtyNext := None, pDirtyPrev := None, flags := ?f\<rparr>
             else if nxt xs a = Some b then (?m ! b)\<lparr>pDirtyPrev := prv xs a\<rparr>
             else if prv xs a = Some b then (?m ! b)\<lparr>pDirtyNext := nxt xs a\<rparr>
             else ?m ! b)"
    using at1 l1 a by (simp add: c2_def store_def nth_list_update)
  have fa: "flags (mem c2 ! a) = ?f" using at a by simp
  have fa1: "\<not> bit (flags (mem c2 ! a)) (Suc 0)" unfolding fa by (rule bit1_after_clean)
  have fa0: "bit (flags (mem c2 ! a)) 0" unfolding fa by (rule bit0_after_clean)
  have fb: "\<forall>b<length ?m. b \<noteq> a \<longrightarrow> flags (mem c2 ! b) = flags (?m ! b)"
    using at by auto
  have "dirty_list c2 (remove1 a xs)"
    unfolding dirty_list_def
  proof (intro conjI ballI)
    show "distinct (remove1 a xs)" using dist by simp
    show "pDirty c2 = head_of (remove1 a xs)"
      using p1 p2 dist ain by (simp add: head_of_remove1 prv_None)
    show "pDirtyTail c2 = last_of (remove1 a xs)"
      using t1 p2 dist ain by (simp add: last_of_remove1 nxt_None)
  next
    fix b assume b: "b \<in> set (remove1 a xs)"
    then have bx: "b \<in> set xs" "b \<noteq> a" using dist by auto
    then have bl: "b < length ?m" using inr by simp
    then show "b < length (mem c2)" using l2 by simp
    have old: "pDirtyNext (?m ! b) = nxt xs b" using inv bx by (simp add: dirty_list_def)
    show "pDirtyNext (mem c2 ! b) = nxt (remove1 a xs) b"
      using at bl bx old dist
      by (auto simp: nxt_remove1 prv_nxt dest: nxt_nxt_neq)
  next
    fix b assume "b \<in> set [0..<length (mem c2)]"
    then have bl: "b < length ?m" using l2 by simp
    have old: "pDirtyPrev (?m ! b) = prv xs b"
      "b \<in> set xs \<longleftrightarrow> bit (flags (?m ! b)) (Suc 0)"
      "\<not> (bit (flags (?m ! b)) (Suc 0) \<and> bit (flags (?m ! b)) 0)"
      using inv bl by (auto simp: dirty_list_def dirty_iff clean_iff)
    show "pDirtyPrev (mem c2 ! b) = prv (remove1 a xs) b"
    proof (cases "b = a")
      case True
      then show ?thesis using at bl dist by (simp add: prv_notin)
    next
      case False
      then show ?thesis using at bl old(1) dist
        by (auto simp: prv_remove1 prv_nxt)
    qed
    show "(b \<in> set (remove1 a xs)) = (flags (mem c2 ! b) AND PGHDR_DIRTY \<noteq> 0)"
      using fa1 fb bl old(2) dist by (cases "b = a") (simp_all add: dirty_iff)
    show "\<not> (flags (mem c2 ! b) AND PGHDR_DIRTY \<noteq> 0 \<and> flags (mem c2 ! b) AND PGHDR_CLEAN \<noteq> 0)"
      using fa1 fb bl old(3) by (cases "b = a") (simp_all add: dirty_iff clean_iff)
  qed
  moreover have "flags (mem c2 ! a) AND PGHDR_CLEAN \<noteq> 0"
    using fa0 by (simp add: clean_iff)
  ultimately show ?thesis using mc l2 fb fa True by (intro exI[of _ c2]) simp
qed


lemma MakeCleanAll_drains:
  "dirty_list c xs \<Longrightarrow>
     \<exists>c3. MakeCleanAll c = Some (Inr c3) \<and> dirty_list c3 [] \<and> length (mem c3) = length (mem c)
        \<and> (\<forall>b \<in> set xs. flags (mem c3 ! b) AND PGHDR_CLEAN \<noteq> 0)
        \<and> (\<forall>b<length (mem c). b \<notin> set xs \<longrightarrow> flags (mem c3 ! b) = flags (mem c ! b))"
proof (induction xs arbitrary: c)
  case Nil
  then have "pDirty c = None" by (simp add: dirty_list_def head_of_def)
  then have "MakeCleanAll c = Some (Inr c)" by (subst MakeCleanAll.simps) simp
  then show ?case using Nil by simp
next
  case (Cons a rest)
  then have hd: "pDirty c = Some a" and a: "a < length (mem c)" and na: "a \<notin> set rest"
    by (simp_all add: dirty_list_def head_of_def)
  obtain c2 where c2: "MakeClean c (Some a) = Inr c2" "length (mem c2) = length (mem c)"
    "dirty_list c2 rest"
    "\<forall>b<length (mem c). b \<noteq> a \<longrightarrow> flags (mem c2 ! b) = flags (mem c ! b)"
    "flags (mem c2 ! a) AND PGHDR_CLEAN \<noteq> 0"
    using MakeClean_keeps_dirty_list[OF Cons.prems a] by auto
  obtain c3 where c3: "MakeCleanAll c2 = Some (Inr c3)" "dirty_list c3 []"
    "length (mem c3) = length (mem c2)"
    "\<forall>b \<in> set rest. flags (mem c3 ! b) AND PGHDR_CLEAN \<noteq> 0"
    "\<forall>b<length (mem c2). b \<notin> set rest \<longrightarrow> flags (mem c3 ! b) = flags (mem c2 ! b)"
    using Cons.IH[OF c2(3)] by auto
  have "MakeCleanAll c = Some (Inr c3)"
    using hd c2(1) c3(1) by (subst MakeCleanAll.simps) simp
  moreover have "flags (mem c3 ! a) AND PGHDR_CLEAN \<noteq> 0"
    using c3(5) c2(2,5) a na by simp
  moreover have "\<forall>b<length (mem c). b \<notin> set (a # rest) \<longrightarrow> flags (mem c3 ! b) = flags (mem c ! b)"
    using c3(5) c2(2,4) by simp
  ultimately show ?case using c3(2,3,4) c2(2) by simp
qed

lemma flags_store_same:
  "(\<And>x. flags (f x) = flags x) \<Longrightarrow> flags (mem (store c a f) ! b) = flags (mem c ! b)"
  by (cases "a < length (mem c)"; cases "a = b") (simp_all add: store_def list_update_beyond)

lemma length_store: "length (mem (store c a f)) = length (mem c)"
  by (simp add: store_def)

lemma ManageDirtyList_add_frame:
  "ManageDirtyList_add c p = Inr c' \<Longrightarrow>
     length (mem c') = length (mem c) \<and> (\<forall>b. flags (mem c' ! b) = flags (mem c ! b))"
  by (auto simp: ManageDirtyList_add_def Let_def flags_store_same length_store
           split: sum.splits option.splits prod.splits)

lemma ManageDirtyList_remove_frame:
  "ManageDirtyList_remove c p = Inr c' \<Longrightarrow>
     length (mem c') = length (mem c) \<and> (\<forall>b. flags (mem c' ! b) = flags (mem c ! b))"
  by (auto simp: ManageDirtyList_remove_def Let_def flags_store_same length_store
           split: sum.splits option.splits prod.splits)

lemma ManageDirtyList_frame:
  "ManageDirtyList c p opn = Inr c' \<Longrightarrow>
     length (mem c') = length (mem c) \<and> (\<forall>b. flags (mem c' ! b) = flags (mem c ! b))"
  by (auto simp: ManageDirtyList_def split: sum.splits if_splits
           dest!: ManageDirtyList_add_frame ManageDirtyList_remove_frame)

lemma MakeDirty_twice:
  "(case MakeDirty c p of Inl e \<Rightarrow> Inl e | Inr c1 \<Rightarrow> MakeDirty c1 p) = MakeDirty c p"
proof (cases "MakeDirty c p")
  case (Inl e)
  then show ?thesis by simp
next
  case (Inr c1)
  show ?thesis
  proof (cases "load c p")
    case (Inl e)
    then show ?thesis using Inr by (simp add: MakeDirty_def)
  next
    case ld: (Inr r)
    obtain a where p: "p = Some a" and a: "a < length (mem c)" and r: "r = (a, mem c ! a)"
      using ld by (auto simp: load_def split: option.splits if_splits)
    show ?thesis
    proof (cases "flags (mem c ! a) AND PGHDR_CLEAN \<noteq> 0")
      case False
      then have "c1 = c" using Inr ld r by (simp add: MakeDirty_def)
      then show ?thesis using Inr by simp
    next
      case True
      let ?c0 = "store c a (\<lambda>x. x\<lparr>flags := flags x XOR (PGHDR_DIRTY OR PGHDR_CLEAN)\<rparr>)"
      have m: "ManageDirtyList ?c0 p PCACHE_DIRTYLIST_ADD = Inr c1"
        using Inr ld r True by (simp add: MakeDirty_def)
      have "length (mem c1) = length (mem c)" "flags (mem c1 ! a) = flags (mem ?c0 ! a)"
        using ManageDirtyList_frame[OF m] by (simp_all add: length_store)
      moreover have "flags (mem ?c0 ! a) = flags (mem c ! a) XOR (PGHDR_DIRTY OR PGHDR_CLEAN)"
        using a by (simp add: store_def)
      ultimately have "\<not> bit (flags (mem c1 ! a)) 0" "a < length (mem c1)"
        using True a by (simp_all add: clean_iff bit0_after_dirty)
      then have "MakeDirty c1 p = Inr c1"
        by (simp add: MakeDirty_def load_def p clean_iff)
      then show ?thesis using Inr by simp
    qed
  qed
qed

lemma MakeClean_twice:
  "(case MakeClean c p of Inl e \<Rightarrow> Inl e | Inr c1 \<Rightarrow> MakeClean c1 p) = MakeClean c p"
proof (cases "MakeClean c p")
  case (Inl e)
  then show ?thesis by simp
next
  case (Inr c2)
  show ?thesis
  proof (cases "load c p")
    case (Inl e)
    then show ?thesis using Inr by (simp add: MakeClean_def)
  next
    case ld: (Inr r)
    obtain a where p: "p = Some a" and a: "a < length (mem c)" and r: "r = (a, mem c ! a)"
      using ld by (auto simp: load_def split: option.splits if_splits)
    show ?thesis
    proof (cases "flags (mem c ! a) AND PGHDR_DIRTY \<noteq> 0")
      case False
      then have "c2 = c" using Inr ld r by (simp add: MakeClean_def)
      then show ?thesis using Inr by simp
    next
      case True
      obtain c1 where m: "ManageDirtyList c p PCACHE_DIRTYLIST_REMOVE = Inr c1"
        and c2: "c2 = store (store c1 a
           (\<lambda>x. x\<lparr>flags := flags x AND NOT (PGHDR_DIRTY OR PGHDR_NEED_SYNC OR PGHDR_WRITEABLE)\<rparr>))
            a (\<lambda>x. x\<lparr>flags := flags x OR PGHDR_CLEAN\<rparr>)"
        using Inr ld r True by (auto simp: MakeClean_def split: sum.splits)
      have l: "length (mem c1) = length (mem c)" using ManageDirtyList_frame[OF m] by simp
      then have "flags (mem c2 ! a)
          = (flags (mem c1 ! a) AND NOT (PGHDR_DIRTY OR PGHDR_NEED_SYNC OR PGHDR_WRITEABLE)) OR PGHDR_CLEAN"
        using a by (simp add: c2 store_def)
      then have "\<not> bit (flags (mem c2 ! a)) (Suc 0)" by (simp only: bit1_after_clean not_False_eq_True)
      moreover have "a < length (mem c2)" using l a by (simp add: c2 store_def)
      ultimately have "MakeClean c2 p = Inr c2"
        by (simp add: MakeClean_def load_def p dirty_iff)
      then show ?thesis using Inr by simp
    qed
  qed
qed

text \<open>
  C7: at rest, an entry is a member of the dirty list exactly when its DIRTY flag
  is set, and the three operations keep it so. \<open>dirty_list c xs\<close> is the state at
  rest with the list \<open>xs\<close>, newest first.
  \<^item> MakeDirty of an entry flagged CLEAN flips CLEAN to DIRTY (afterwards DIRTY is
    set and CLEAN is not) and puts the entry at the head; on any other entry it
    leaves the cache as it is.
  \<^item> MakeClean of an entry flagged DIRTY flips back (afterwards CLEAN is set and
    DIRTY is not) and takes the entry out of the list; on any other entry it
    leaves the cache as it is.
  \<^item> MakeCleanAll returns, with an empty list (no head, no tail) and every former
    member flagged CLEAN and not DIRTY.
  No operation changes the flags of another entry.
\<close>

theorem dirty_list_preserved:
  assumes "dirty_list c xs" and "a < length (mem c)"
  shows "(a \<in> set xs \<longleftrightarrow> flags (mem c ! a) AND PGHDR_DIRTY \<noteq> 0)
    \<and> (\<exists>c1. MakeDirty c (Some a) = Inr c1
           \<and> dirty_list c1 (if flags (mem c ! a) AND PGHDR_CLEAN \<noteq> 0 then a # xs else xs)
           \<and> length (mem c1) = length (mem c)
           \<and> flags (mem c1 ! a)
               = (if flags (mem c ! a) AND PGHDR_CLEAN \<noteq> 0
                  then flags (mem c ! a) XOR (PGHDR_DIRTY OR PGHDR_CLEAN) else flags (mem c ! a))
           \<and> (flags (mem c ! a) AND PGHDR_CLEAN \<noteq> 0 \<longrightarrow>
                 flags (mem c1 ! a) AND PGHDR_DIRTY \<noteq> 0 \<and> flags (mem c1 ! a) AND PGHDR_CLEAN = 0)
           \<and> (flags (mem c ! a) AND PGHDR_CLEAN = 0 \<longrightarrow> c1 = c)
           \<and> (\<forall>b<length (mem c). b \<noteq> a \<longrightarrow> flags (mem c1 ! b) = flags (mem c ! b)))
    \<and> (\<exists>c2. MakeClean c (Some a) = Inr c2 \<and> dirty_list c2 (remove1 a xs)
           \<and> length (mem c2) = length (mem c)
           \<and> flags (mem c2 ! a)
               = (if flags (mem c ! a) AND PGHDR_DIRTY \<noteq> 0
                  then (flags (mem c ! a) AND NOT (PGHDR_DIRTY OR PGHDR_NEED_SYNC OR PGHDR_WRITEABLE))
                         OR PGHDR_CLEAN
                  else flags (mem c ! a))
           \<and> (flags (mem c ! a) AND PGHDR_DIRTY \<noteq> 0 \<longrightarrow>
                 flags (mem c2 ! a) AND PGHDR_CLEAN \<noteq> 0 \<and> flags (mem c2 ! a) AND PGHDR_DIRTY = 0)
           \<and> (flags (mem c ! a) AND PGHDR_DIRTY = 0 \<longrightarrow> c2 = c)
           \<and> (\<forall>b<length (mem c). b \<noteq> a \<longrightarrow> flags (mem c2 ! b) = flags (mem c ! b)))
    \<and> (\<exists>c3. MakeCleanAll c = Some (Inr c3) \<and> dirty_list c3 []
           \<and> pDirty c3 = None \<and> pDirtyTail c3 = None
           \<and> length (mem c3) = length (mem c)
           \<and> (\<forall>b \<in> set xs. flags (mem c3 ! b) AND PGHDR_CLEAN \<noteq> 0
                              \<and> flags (mem c3 ! b) AND PGHDR_DIRTY = 0)
           \<and> (\<forall>b<length (mem c). b \<notin> set xs \<longrightarrow> flags (mem c3 ! b) = flags (mem c ! b)))"
proof (intro conjI)
  show "a \<in> set xs \<longleftrightarrow> flags (mem c ! a) AND PGHDR_DIRTY \<noteq> 0"
    using assms by (simp add: dirty_list_def)
next
  obtain c1 where c1: "MakeDirty c (Some a) = Inr c1" "length (mem c1) = length (mem c)"
    "dirty_list c1 (if flags (mem c ! a) AND PGHDR_CLEAN \<noteq> 0 then a # xs else xs)"
    "flags (mem c1 ! a)
       = (if flags (mem c ! a) AND PGHDR_CLEAN \<noteq> 0
          then flags (mem c ! a) XOR (PGHDR_DIRTY OR PGHDR_CLEAN) else flags (mem c ! a))"
    "\<forall>b<length (mem c). b \<noteq> a \<longrightarrow> flags (mem c1 ! b) = flags (mem c ! b)"
    "flags (mem c ! a) AND PGHDR_CLEAN = 0 \<longrightarrow> c1 = c"
    using MakeDirty_keeps_dirty_list[OF assms] by blast
  have "flags (mem c ! a) AND PGHDR_CLEAN \<noteq> 0 \<longrightarrow>
          flags (mem c1 ! a) AND PGHDR_DIRTY \<noteq> 0 \<and> flags (mem c1 ! a) AND PGHDR_CLEAN = 0"
  proof
    assume cl: "flags (mem c ! a) AND PGHDR_CLEAN \<noteq> 0"
    then have "dirty_list c1 (a # xs)" using c1(3) by simp
    then show "flags (mem c1 ! a) AND PGHDR_DIRTY \<noteq> 0 \<and> flags (mem c1 ! a) AND PGHDR_CLEAN = 0"
      using assms(2) c1(2) by (auto simp: dirty_list_def)
  qed
  then show "\<exists>c1. MakeDirty c (Some a) = Inr c1
           \<and> dirty_list c1 (if flags (mem c ! a) AND PGHDR_CLEAN \<noteq> 0 then a # xs else xs)
           \<and> length (mem c1) = length (mem c)
           \<and> flags (mem c1 ! a)
               = (if flags (mem c ! a) AND PGHDR_CLEAN \<noteq> 0
                  then flags (mem c ! a) XOR (PGHDR_DIRTY OR PGHDR_CLEAN) else flags (mem c ! a))
           \<and> (flags (mem c ! a) AND PGHDR_CLEAN \<noteq> 0 \<longrightarrow>
                 flags (mem c1 ! a) AND PGHDR_DIRTY \<noteq> 0 \<and> flags (mem c1 ! a) AND PGHDR_CLEAN = 0)
           \<and> (flags (mem c ! a) AND PGHDR_CLEAN = 0 \<longrightarrow> c1 = c)
           \<and> (\<forall>b<length (mem c). b \<noteq> a \<longrightarrow> flags (mem c1 ! b) = flags (mem c ! b))"
    using c1 by (intro exI[of _ c1]) blast
next
  obtain c2 where c2: "MakeClean c (Some a) = Inr c2" "length (mem c2) = length (mem c)"
    "dirty_list c2 (remove1 a xs)"
    "\<forall>b<length (mem c). b \<noteq> a \<longrightarrow> flags (mem c2 ! b) = flags (mem c ! b)"
    "flags (mem c2 ! a)
       = (if flags (mem c ! a) AND PGHDR_DIRTY \<noteq> 0
          then (flags (mem c ! a) AND NOT (PGHDR_DIRTY OR PGHDR_NEED_SYNC OR PGHDR_WRITEABLE))
                 OR PGHDR_CLEAN
          else flags (mem c ! a))"
    "flags (mem c ! a) AND PGHDR_DIRTY = 0 \<longrightarrow> c2 = c"
    "a \<in> set xs \<longrightarrow> flags (mem c2 ! a) AND PGHDR_CLEAN \<noteq> 0"
    using MakeClean_keeps_dirty_list[OF assms] by blast
  have "flags (mem c ! a) AND PGHDR_DIRTY \<noteq> 0 \<longrightarrow>
          flags (mem c2 ! a) AND PGHDR_CLEAN \<noteq> 0 \<and> flags (mem c2 ! a) AND PGHDR_DIRTY = 0"
  proof
    assume d: "flags (mem c ! a) AND PGHDR_DIRTY \<noteq> 0"
    then have ain: "a \<in> set xs" using assms by (simp add: dirty_list_def)
    have "distinct xs" using assms(1) by (simp add: dirty_list_def)
    then have "a \<notin> set (remove1 a xs)" by simp
    then have "flags (mem c2 ! a) AND PGHDR_DIRTY = 0"
      using c2(2,3) assms(2) by (auto simp: dirty_list_def)
    then show "flags (mem c2 ! a) AND PGHDR_CLEAN \<noteq> 0 \<and> flags (mem c2 ! a) AND PGHDR_DIRTY = 0"
      using c2(7) ain by simp
  qed
  then show "\<exists>c2. MakeClean c (Some a) = Inr c2 \<and> dirty_list c2 (remove1 a xs)
           \<and> length (mem c2) = length (mem c)
           \<and> flags (mem c2 ! a)
               = (if flags (mem c ! a) AND PGHDR_DIRTY \<noteq> 0
                  then (flags (mem c ! a) AND NOT (PGHDR_DIRTY OR PGHDR_NEED_SYNC OR PGHDR_WRITEABLE))
                         OR PGHDR_CLEAN
                  else flags (mem c ! a))
           \<and> (flags (mem c ! a) AND PGHDR_DIRTY \<noteq> 0 \<longrightarrow>
                 flags (mem c2 ! a) AND PGHDR_CLEAN \<noteq> 0 \<and> flags (mem c2 ! a) AND PGHDR_DIRTY = 0)
           \<and> (flags (mem c ! a) AND PGHDR_DIRTY = 0 \<longrightarrow> c2 = c)
           \<and> (\<forall>b<length (mem c). b \<noteq> a \<longrightarrow> flags (mem c2 ! b) = flags (mem c ! b))"
    using c2 by (intro exI[of _ c2]) blast
next
  obtain c3 where c3: "MakeCleanAll c = Some (Inr c3)" "dirty_list c3 []"
    "length (mem c3) = length (mem c)"
    "\<forall>b \<in> set xs. flags (mem c3 ! b) AND PGHDR_CLEAN \<noteq> 0"
    "\<forall>b<length (mem c). b \<notin> set xs \<longrightarrow> flags (mem c3 ! b) = flags (mem c ! b)"
    using MakeCleanAll_drains[OF assms(1)] by blast
  have e: "pDirty c3 = None" "pDirtyTail c3 = None"
    using c3(2) by (simp_all add: dirty_list_def head_of_def last_of_def)
  have inr: "\<forall>b \<in> set xs. b < length (mem c3)"
    using assms(1) c3(3) by (simp add: dirty_list_def)
  have "\<forall>b<length (mem c3). flags (mem c3 ! b) AND PGHDR_DIRTY = 0"
    using c3(2) by (simp add: dirty_list_def)
  then have "\<forall>b \<in> set xs. flags (mem c3 ! b) AND PGHDR_CLEAN \<noteq> 0
                              \<and> flags (mem c3 ! b) AND PGHDR_DIRTY = 0"
    using c3(4) inr by blast
  then show "\<exists>c3. MakeCleanAll c = Some (Inr c3) \<and> dirty_list c3 []
           \<and> pDirty c3 = None \<and> pDirtyTail c3 = None
           \<and> length (mem c3) = length (mem c)
           \<and> (\<forall>b \<in> set xs. flags (mem c3 ! b) AND PGHDR_CLEAN \<noteq> 0
                              \<and> flags (mem c3 ! b) AND PGHDR_DIRTY = 0)
           \<and> (\<forall>b<length (mem c). b \<notin> set xs \<longrightarrow> flags (mem c3 ! b) = flags (mem c ! b))"
    using c3 e by (intro exI[of _ c3]) blast
qed

theorem dirty_list_preserved_witness:
  "dirty_list cache3 [2, 0] \<and> 1 < length (mem cache3)
    \<and> (\<exists>c1. MakeDirty cache3 (Some 1) = Inr c1 \<and> dirty_list c1 [1, 2, 0]
           \<and> flags (mem c1 ! 1) AND PGHDR_DIRTY \<noteq> 0 \<and> flags (mem c1 ! 1) AND PGHDR_CLEAN = 0)
    \<and> (\<exists>c2. MakeClean cache3 (Some 1) = Inr c2 \<and> dirty_list c2 [2, 0] \<and> c2 = cache3)
    \<and> (\<exists>c3. MakeCleanAll cache3 = Some (Inr c3) \<and> dirty_list c3 [] \<and> pDirty c3 = None
           \<and> pDirtyTail c3 = None
           \<and> (\<forall>b \<in> set [2, 0]. flags (mem c3 ! b) AND PGHDR_CLEAN \<noteq> 0
                                  \<and> flags (mem c3 ! b) AND PGHDR_DIRTY = 0))"
proof -
  have h: "dirty_list cache3 [2, 0]" by code_simp
  have a: "1 < length (mem cache3)" by (simp add: cache3_def)
  have cl: "flags (mem cache3 ! 1) AND PGHDR_CLEAN \<noteq> 0" by code_simp
  have nd: "flags (mem cache3 ! 1) AND PGHDR_DIRTY = 0" by code_simp
  have t: "dirty_list cache3 [2, 0] \<and> 1 < length (mem cache3)" using h a by simp
  from dirty_list_preserved[OF h a] cl nd
  have "(\<exists>c1. MakeDirty cache3 (Some 1) = Inr c1 \<and> dirty_list c1 [1, 2, 0]
           \<and> flags (mem c1 ! 1) AND PGHDR_DIRTY \<noteq> 0 \<and> flags (mem c1 ! 1) AND PGHDR_CLEAN = 0)"
    and "(\<exists>c2. MakeClean cache3 (Some 1) = Inr c2 \<and> dirty_list c2 [2, 0] \<and> c2 = cache3)"
    and "(\<exists>c3. MakeCleanAll cache3 = Some (Inr c3) \<and> dirty_list c3 [] \<and> pDirty c3 = None
           \<and> pDirtyTail c3 = None
           \<and> (\<forall>b \<in> set [2, 0]. flags (mem c3 ! b) AND PGHDR_CLEAN \<noteq> 0
                                  \<and> flags (mem c3 ! b) AND PGHDR_DIRTY = 0))"
    by auto
  then show ?thesis using t by blast
qed

text \<open>
  The three entries of \<open>cache3\<close>, all cleaned and then marked dirty in the order
  0, 1, 2: the head is entry 2 and the tail entry 0; cleaning entry 1 leaves the
  list 2, 0.
\<close>

lemma dirty_order_example:
  "(case MakeCleanAll cache3 of
      Some (Inr c) \<Rightarrow>
        (case MakeDirty c (Some 0) of
           Inr c0 \<Rightarrow>
             (case MakeDirty c0 (Some 1) of
                Inr c1 \<Rightarrow>
                  (case MakeDirty c1 (Some 2) of
                     Inr c2 \<Rightarrow>
                       dirty_list c2 [2, 1, 0] \<and> pDirty c2 = Some 2 \<and> pDirtyTail c2 = Some 0
                       \<and> (case MakeClean c2 (Some 1) of Inr c3 \<Rightarrow> dirty_list c3 [2, 0] | Inl e \<Rightarrow> False)
                   | Inl e \<Rightarrow> False)
              | Inl e \<Rightarrow> False)
         | Inl e \<Rightarrow> False)
    | _ \<Rightarrow> False)"
  by code_simp

text \<open>
  C10: MakeDirty and MakeClean are idempotent: applied twice in a row to the same
  entry, each leaves the state that one application leaves (and panics where one
  application panics).
\<close>

theorem MakeDirty_MakeClean_idempotent:
  "(case MakeDirty c p of Inl e \<Rightarrow> Inl e | Inr c1 \<Rightarrow> MakeDirty c1 p) = MakeDirty c p
   \<and> (case MakeClean c p of Inl e \<Rightarrow> Inl e | Inr c1 \<Rightarrow> MakeClean c1 p) = MakeClean c p"
  using MakeDirty_twice MakeClean_twice by blast

theorem MakeDirty_MakeClean_idempotent_witness:
  "(case MakeDirty cache3 (Some 1) of Inl e \<Rightarrow> Inl e | Inr c1 \<Rightarrow> MakeDirty c1 (Some 1))
      = MakeDirty cache3 (Some 1)
   \<and> (case MakeClean cache3 (Some 2) of Inl e \<Rightarrow> Inl e | Inr c1 \<Rightarrow> MakeClean c1 (Some 2))
      = MakeClean cache3 (Some 2)
   \<and> MakeDirty cache3 (Some 1) \<noteq> Inr cache3 \<and> MakeClean cache3 (Some 2) \<noteq> Inr cache3"
proof -
  have n: "MakeDirty cache3 (Some 1) \<noteq> Inr cache3 \<and> MakeClean cache3 (Some 2) \<noteq> Inr cache3"
    by code_simp
  show ?thesis
    using MakeDirty_MakeClean_idempotent[where c = cache3 and p = "Some 1"]
      MakeDirty_MakeClean_idempotent[where c = cache3 and p = "Some 2"] n by simp
qed

subsection \<open>The hash table\<close>

lemma chain_cong:
  "length m' = length m \<Longrightarrow> \<forall>b \<in> set xs. pNext (m' ! b) = pNext (m ! b) \<Longrightarrow>
     chain m' p xs = chain m p xs"
  by (induction xs arbitrary: p) auto

lemma chain_in_range: "chain m p xs \<Longrightarrow> \<forall>a \<in> set xs. a < length m"
  by (induction xs arbitrary: p) auto

lemma set_concat_update:
  "h < length ns \<Longrightarrow> set (concat (ns[h := a # ns ! h])) = insert a (set (concat ns))"
proof (induction ns arbitrary: h)
  case Nil
  then show ?case by simp
next
  case (Cons x ns)
  then show ?case by (cases h) auto
qed

lemma distinct_concat_update:
  "h < length ns \<Longrightarrow> distinct (concat ns) \<Longrightarrow> a \<notin> set (concat ns) \<Longrightarrow>
     distinct (concat (ns[h := a # ns ! h]))"
proof (induction ns arbitrary: h)
  case Nil
  then show ?case by simp
next
  case (Cons x ns)
  show ?case
  proof (cases h)
    case 0
    then show ?thesis using Cons.prems by auto
  next
    case (Suc h')
    then have "distinct (concat (ns[h' := a # ns ! h']))" using Cons by auto
    moreover have "set (concat (ns[h' := a # ns ! h'])) = insert a (set (concat ns))"
      using Cons.prems Suc by (simp add: set_concat_update del: set_concat)
    ultimately show ?thesis using Cons.prems Suc by (auto simp del: set_concat)
  qed
qed

lemma go_rem_nonneg: "0 \<le> k \<Longrightarrow> 0 < n \<Longrightarrow> go_rem k n = Inr (k mod n)"
  by (simp add: go_rem_def smod_int_alt_def sgn_if)

lemma ResizeHash_inner_chain:
  assumes "0 < nNew"
  shows "new_table nNew (mem c) apNew ns \<Longrightarrow> chain (mem c) p xs \<Longrightarrow> distinct xs \<Longrightarrow>
     set xs \<inter> set (concat ns) = {} \<Longrightarrow> distinct (concat ns) \<Longrightarrow>
     \<forall>a \<in> set xs. 0 \<le> iKey (mem c ! a) \<Longrightarrow>
     \<exists>apNew' m' ns'. ResizeHash_inner nNew (apNew, c) p = Some (Inr (apNew', c\<lparr>mem := m'\<rparr>))
        \<and> new_table nNew m' apNew' ns'
        \<and> set (concat ns') = set (concat ns) \<union> set xs \<and> distinct (concat ns')
        \<and> length m' = length (mem c)
        \<and> (\<forall>b<length (mem c). iKey (m' ! b) = iKey (mem c ! b))
        \<and> (\<forall>b<length (mem c). b \<notin> set xs \<longrightarrow> m' ! b = mem c ! b)"
proof (induction xs arbitrary: apNew c ns p)
  case Nil
  then have "p = None" by simp
  then have "ResizeHash_inner nNew (apNew, c) p = Some (Inr (apNew, c\<lparr>mem := mem c\<rparr>))"
    by (subst ResizeHash_inner.simps) simp
  moreover have "c\<lparr>mem := mem c\<rparr> = c" by simp
  ultimately show ?case using Nil.prems
    by (intro exI[of _ apNew] exI[of _ "mem c"] exI[of _ ns]) simp
next
  case (Cons a rest)
  let ?m = "mem c"
  let ?h = "iKey (?m ! a) mod nNew"
  have p: "p = Some a" and a: "a < length ?m" and rest: "chain ?m (pNext (?m ! a)) rest"
    using Cons.prems(2) by simp_all
  have k: "0 \<le> iKey (?m ! a)" using Cons.prems(6) by simp
  have h: "0 \<le> ?h" "?h < nNew" "nat ?h < nat nNew" using assms by simp_all
  have len: "length apNew = nat nNew" "length ns = nat nNew"
    using Cons.prems(1) by (simp_all add: new_table_def)
  define apNew1 where "apNew1 = apNew[nat ?h := Some a]"
  define c1 where "c1 = set_pNext c a (apNew ! nat ?h)"
  define ns1 where "ns1 = ns[nat ?h := a # ns ! nat ?h]"
  have m1: "mem c1 = ?m[a := (?m ! a)\<lparr>pNext := apNew ! nat ?h\<rparr>]"
    by (simp add: c1_def set_pNext_def store_def)
  have c1c: "c1 = c\<lparr>mem := mem c1\<rparr>" by (simp add: c1_def set_pNext_def store_def)
  have ana: "a \<notin> set (concat ns)" "a \<notin> set rest" using Cons.prems(3,4) by auto
  have step: "ResizeHash_inner nNew (apNew, c) p
      = ResizeHash_inner nNew (apNew1, c1) (pNext (?m ! a))"
    using p a k h len assms
    by (subst ResizeHash_inner.simps)
       (simp add: load_def go_rem_nonneg slot_def apNew1_def c1_def)
  have same: "\<forall>b<length ?m. b \<noteq> a \<longrightarrow> mem c1 ! b = ?m ! b" using m1 by simp
  have keys: "\<forall>b<length ?m. iKey (mem c1 ! b) = iKey (?m ! b)"
    using m1 a by (auto simp: nth_list_update)
  have l1: "length (mem c1) = length ?m" using m1 by simp
  have nt: "new_table nNew (mem c1) apNew1 ns1"
    unfolding new_table_def
  proof (intro conjI allI impI)
    show "length apNew1 = nat nNew" using len by (simp add: apNew1_def)
    show "length ns1 = nat nNew" using len by (simp add: ns1_def)
  next
    fix g assume g: "g < nat nNew"
    have old: "chain ?m (apNew ! g) (ns ! g)"
      "\<forall>b \<in> set (ns ! g). 0 \<le> iKey (?m ! b) \<and> iKey (?m ! b) mod nNew = int g"
      using Cons.prems(1) g by (simp_all add: new_table_def)
    have "ns ! g \<in> set ns" using g len by simp
    then have sub: "set (ns ! g) \<subseteq> set (concat ns)" by auto
    then have ang: "a \<notin> set (ns ! g)" using ana by auto
    have inr: "\<forall>b \<in> set (ns ! g). b < length ?m" using old(1) by (rule chain_in_range)
    have ch: "chain (mem c1) (apNew ! g) (ns ! g)"
      using old(1) ang m1 a by (subst chain_cong[of _ ?m]) (auto simp: nth_list_update)
    show "chain (mem c1) (apNew1 ! g) (ns1 ! g)"
    proof (cases "g = nat ?h")
      case True
      then show ?thesis using ch a len g m1 by (simp add: apNew1_def ns1_def)
    next
      case False
      then show ?thesis using ch len g by (simp add: apNew1_def ns1_def)
    qed
    have e: "ns1 ! g = (if g = nat ?h then a # ns ! g else ns ! g)"
      using len g by (simp add: ns1_def)
    have ka: "iKey (mem c1 ! a) = iKey (?m ! a)" using keys a by simp
    have kb: "\<forall>b \<in> set (ns ! g). iKey (mem c1 ! b) = iKey (?m ! b)" using keys inr by simp
    show "\<forall>b \<in> set (ns1 ! g). 0 \<le> iKey (mem c1 ! b) \<and> iKey (mem c1 ! b) mod nNew = int g"
    proof (intro ballI)
      fix b assume "b \<in> set (ns1 ! g)"
      then consider "b = a" "g = nat ?h" | "b \<in> set (ns ! g)"
        unfolding e by (cases "g = nat ?h") auto
      then show "0 \<le> iKey (mem c1 ! b) \<and> iKey (mem c1 ! b) mod nNew = int g"
      proof cases
        case 1
        then show ?thesis using ka k h(1) by simp
      next
        case 2
        then show ?thesis using old(2) kb by simp
      qed
    qed
  qed
  have rest1: "chain (mem c1) (pNext (?m ! a)) rest"
    using rest ana(2) m1 a by (subst chain_cong[of _ ?m]) (auto simp: nth_list_update)
  have s1: "set (concat ns1) = insert a (set (concat ns))"
    unfolding ns1_def using h(3) len by (intro set_concat_update) simp
  have d1: "distinct (concat ns1)"
    unfolding ns1_def using h(3) len Cons.prems(5) ana(1) by (intro distinct_concat_update) simp_all
  have disj: "set rest \<inter> set (concat ns1) = {}"
    using Cons.prems(3,4) s1 by (auto simp del: set_concat)
  have inr_rest: "\<forall>b \<in> set rest. b < length ?m" using rest by (rule chain_in_range)
  have k1: "\<forall>b \<in> set rest. 0 \<le> iKey (mem c1 ! b)"
    using Cons.prems(6) keys inr_rest by simp
  obtain apNew' m' ns' where r:
    "ResizeHash_inner nNew (apNew1, c1) (pNext (?m ! a)) = Some (Inr (apNew', c1\<lparr>mem := m'\<rparr>))"
    "new_table nNew m' apNew' ns'"
    "set (concat ns') = set (concat ns1) \<union> set rest" "distinct (concat ns')"
    "length m' = length (mem c1)"
    "\<forall>b<length (mem c1). iKey (m' ! b) = iKey (mem c1 ! b)"
    "\<forall>b<length (mem c1). b \<notin> set rest \<longrightarrow> m' ! b = mem c1 ! b"
    using Cons.IH[OF nt rest1 _ disj d1 k1] Cons.prems(3) by auto
  have cc: "c1\<lparr>mem := m'\<rparr> = c\<lparr>mem := m'\<rparr>" by (subst c1c) simp
  show ?case
  proof (intro exI conjI)
    show "ResizeHash_inner nNew (apNew, c) p = Some (Inr (apNew', c\<lparr>mem := m'\<rparr>))"
      using step r(1) cc by simp
    show "new_table nNew m' apNew' ns'" by (rule r(2))
    show "set (concat ns') = set (concat ns) \<union> set (a # rest)"
      using r(3) s1 by (auto simp del: set_concat)
    show "distinct (concat ns')" by (rule r(4))
    show "length m' = length ?m" using r(5) l1 by simp
    show "\<forall>b<length ?m. iKey (m' ! b) = iKey (?m ! b)" using r(6) keys l1 by simp
    show "\<forall>b<length ?m. b \<notin> set (a # rest) \<longrightarrow> m' ! b = ?m ! b" using r(7) same l1 by simp
  qed
qed


lemma ResizeHash_outer_chain:
  assumes "0 < nNew"
  shows "new_table nNew (mem c) apNew ns \<Longrightarrow> distinct (concat ns) \<Longrightarrow>
     \<forall>i \<in> set js. i < length (apHash c) \<and> chain (mem c) (apHash c ! i) (bs ! i)
                  \<and> (\<forall>a \<in> set (bs ! i). 0 \<le> iKey (mem c ! a)) \<Longrightarrow>
     distinct (concat (map ((!) bs) js)) \<Longrightarrow>
     set (concat (map ((!) bs) js)) \<inter> set (concat ns) = {} \<Longrightarrow>
     \<exists>apNew' m' ns'. ResizeHash_outer nNew js (apNew, c) = Some (Inr (apNew', c\<lparr>mem := m'\<rparr>))
        \<and> new_table nNew m' apNew' ns'
        \<and> set (concat ns') = set (concat ns) \<union> set (concat (map ((!) bs) js))
        \<and> distinct (concat ns')
        \<and> length m' = length (mem c)
        \<and> (\<forall>b<length (mem c). iKey (m' ! b) = iKey (mem c ! b))"
proof (induction js arbitrary: apNew c ns)
  case Nil
  have "c\<lparr>mem := mem c\<rparr> = c" by simp
  then show ?case using Nil.prems
    by (intro exI[of _ apNew] exI[of _ "mem c"] exI[of _ ns]) simp
next
  case (Cons i rest)
  let ?m = "mem c"
  have i: "i < length (apHash c)" and ch: "chain ?m (apHash c ! i) (bs ! i)"
    and ki: "\<forall>a \<in> set (bs ! i). 0 \<le> iKey (?m ! a)"
    using Cons.prems(3) by simp_all
  have di: "distinct (bs ! i)" using Cons.prems(4) by simp
  have dj: "set (bs ! i) \<inter> set (concat ns) = {}" using Cons.prems(5) by auto
  obtain apNew1 m1 ns1 where r1:
    "ResizeHash_inner nNew (apNew, c) (apHash c ! i) = Some (Inr (apNew1, c\<lparr>mem := m1\<rparr>))"
    "new_table nNew m1 apNew1 ns1"
    "set (concat ns1) = set (concat ns) \<union> set (bs ! i)" "distinct (concat ns1)"
    "length m1 = length ?m"
    "\<forall>b<length ?m. iKey (m1 ! b) = iKey (?m ! b)"
    "\<forall>b<length ?m. b \<notin> set (bs ! i) \<longrightarrow> m1 ! b = ?m ! b"
    using ResizeHash_inner_chain[OF assms Cons.prems(1) ch di dj Cons.prems(2) ki] by blast
  let ?c1 = "c\<lparr>mem := m1\<rparr>"
  have nt: "new_table nNew (mem ?c1) apNew1 ns1" using r1(2) by simp
  have rest: "\<forall>j \<in> set rest. j < length (apHash ?c1) \<and> chain (mem ?c1) (apHash ?c1 ! j) (bs ! j)
                  \<and> (\<forall>a \<in> set (bs ! j). 0 \<le> iKey (mem ?c1 ! a))"
  proof (intro ballI)
    fix j assume j: "j \<in> set rest"
    then have o: "j < length (apHash c)" "chain ?m (apHash c ! j) (bs ! j)"
      "\<forall>a \<in> set (bs ! j). 0 \<le> iKey (?m ! a)"
      using Cons.prems(3) by simp_all
    have inr: "\<forall>b \<in> set (bs ! j). b < length ?m" using o(2) by (rule chain_in_range)
    have "set (bs ! i) \<inter> set (bs ! j) = {}" using Cons.prems(4) j by auto
    then have same: "\<forall>b \<in> set (bs ! j). m1 ! b = ?m ! b" using r1(7) inr by auto
    have "chain m1 (apHash c ! j) (bs ! j)"
      using o(2) same r1(5) by (subst chain_cong[of _ ?m]) simp_all
    then show "j < length (apHash ?c1) \<and> chain (mem ?c1) (apHash ?c1 ! j) (bs ! j)
                  \<and> (\<forall>a \<in> set (bs ! j). 0 \<le> iKey (mem ?c1 ! a))"
      using o(1,3) same by simp
  qed
  have dr: "distinct (concat (map ((!) bs) rest))" using Cons.prems(4) by simp
  have dis: "set (concat (map ((!) bs) rest)) \<inter> set (concat ns1) = {}"
    using Cons.prems(4,5) r1(3) by (auto simp del: set_concat)
  obtain apNew' m' ns' where r:
    "ResizeHash_outer nNew rest (apNew1, ?c1) = Some (Inr (apNew', ?c1\<lparr>mem := m'\<rparr>))"
    "new_table nNew m' apNew' ns'"
    "set (concat ns') = set (concat ns1) \<union> set (concat (map ((!) bs) rest))"
    "distinct (concat ns')"
    "length m' = length (mem ?c1)"
    "\<forall>b<length (mem ?c1). iKey (m' ! b) = iKey (mem ?c1 ! b)"
    using Cons.IH[OF nt r1(4) rest dr dis] by blast
  have cc: "?c1\<lparr>mem := m'\<rparr> = c\<lparr>mem := m'\<rparr>" by simp
  show ?case
  proof (intro exI conjI)
    show "ResizeHash_outer nNew (i # rest) (apNew, c) = Some (Inr (apNew', c\<lparr>mem := m'\<rparr>))"
      using i r1(1) r(1) by (simp add: slot_def)
    show "new_table nNew m' apNew' ns'" by (rule r(2))
    show "set (concat ns') = set (concat ns) \<union> set (concat (map ((!) bs) (i # rest)))"
      using r(3) r1(3) by (auto simp del: set_concat)
    show "distinct (concat ns')" by (rule r(4))
    show "length m' = length ?m" using r(5) r1(5) by simp
    show "\<forall>b<length ?m. iKey (m' ! b) = iKey (?m ! b)" using r(6) r1(5,6) by simp
  qed
qed

lemma FetchPage_walk_finds:
  "chain (mem c) p xs \<Longrightarrow> a \<in> set xs \<Longrightarrow>
     \<forall>b \<in> set xs. iKey (mem c ! b) = iKey (mem c ! a) \<longrightarrow> b = a \<Longrightarrow>
     FetchPage_walk c (iKey (mem c ! a)) p = Some (Inr (Some a))"
proof (induction xs arbitrary: p)
  case Nil
  then show ?case by simp
next
  case (Cons x rest)
  then have p: "p = Some x" "x < length (mem c)" "chain (mem c) (pNext (mem c ! x)) rest"
    by simp_all
  show ?case
  proof (cases "x = a")
    case True
    then show ?thesis using p by (subst FetchPage_walk.simps) (simp add: load_def)
  next
    case False
    then have "iKey (mem c ! x) \<noteq> iKey (mem c ! a)" "a \<in> set rest" using Cons.prems by auto
    then show ?thesis using p Cons.IH[OF p(3)] Cons.prems(3)
      by (subst FetchPage_walk.simps) (simp add: load_def)
  qed
qed



lemma hash_table_bucket:
  assumes "hash_table c bs" and "a \<in> set (concat bs)"
  obtains i where "i < length bs" "a \<in> set (bs ! i)" "chain (mem c) (apHash c ! i) (bs ! i)"
    "0 \<le> iKey (mem c ! a)" "iKey (mem c ! a) mod nHash c = int i" "a < length (mem c)"
proof -
  obtain xs where "xs \<in> set bs" "a \<in> set xs" using assms(2) by auto
  then obtain i where i: "i < length bs" "a \<in> set (bs ! i)" by (auto simp: in_set_conv_nth)
  then have "chain (mem c) (apHash c ! i) (bs ! i)"
    "0 \<le> iKey (mem c ! a)" "iKey (mem c ! a) mod nHash c = int i"
    using assms(1) by (auto simp: hash_table_def)
  moreover from this(1) i(2) have "a < length (mem c)" by (auto dest: chain_in_range)
  ultimately show ?thesis using i that by blast
qed

lemma FetchPage_lookup_resident:
  assumes "hash_table c bs" and "a \<in> set (concat bs)"
  shows "FetchPage_lookup c (iKey (mem c ! a)) = Some (Inr (Some a))"
proof -
  obtain i where i: "i < length bs" "a \<in> set (bs ! i)" "chain (mem c) (apHash c ! i) (bs ! i)"
    "0 \<le> iKey (mem c ! a)" "iKey (mem c ! a) mod nHash c = int i"
    using hash_table_bucket[OF assms] by blast
  have n: "nHash c = int (length (apHash c))" "length bs = length (apHash c)"
    using assms(1) by (simp_all add: hash_table_def)
  have pos: "0 < nHash c" using n i(1) by auto
  have inj: "inj_on (\<lambda>a. iKey (mem c ! a)) (set (concat bs))"
    using assms(1) by (simp add: hash_table_def distinct_map)
  have "bs ! i \<in> set bs" using i(1) by simp
  then have sub: "set (bs ! i) \<subseteq> set (concat bs)" by auto
  have uniq: "\<forall>b \<in> set (bs ! i). iKey (mem c ! b) = iKey (mem c ! a) \<longrightarrow> b = a"
    using inj sub assms(2) by (auto dest: inj_onD)
  have g: "go_rem (iKey (mem c ! a)) (nHash c) = Inr (int i)"
    using go_rem_nonneg[OF i(4) pos] i(5) by simp
  have s: "slot (apHash c) (int i) = Inr (apHash c ! i)" using i(1) n by (simp add: slot_def)
  show ?thesis
    using FetchPage_walk_finds[OF i(3) i(2) uniq] by (simp add: FetchPage_lookup_def g s)
qed


lemma int64_id: "- (2 ^ 63) \<le> x \<Longrightarrow> x < 2 ^ 63 \<Longrightarrow> int64 x = x"
  by (simp add: int64_def)

lemma ResizeHash_hash_table:
  assumes ht: "hash_table c bs" and small: "nHash c < 2 ^ 62"
  shows "\<exists>c' bs'. ResizeHash c = Some (Inr c') \<and> nHash c' = max (2 * nHash c) 256
      \<and> hash_table c' bs' \<and> set (concat bs') = set (concat bs)
      \<and> length (mem c') = length (mem c)
      \<and> (\<forall>a \<in> set (concat bs). iKey (mem c' ! a) = iKey (mem c ! a))"
proof -
  let ?m = "mem c"
  have n: "nHash c = int (length (apHash c))" "length bs = length (apHash c)"
    using ht by (simp_all add: hash_table_def)
  define nNew where "nNew = max (2 * nHash c) 256"
  have n0: "int64 (nHash c * 2) = nHash c * 2" using n small by (intro int64_id) simp_all
  have pos: "0 < nNew" by (simp add: nNew_def)
  have nn: "(if int64 (nHash c * 2) < 256 then 256 else int64 (nHash c * 2)) = nNew"
    unfolding n0 nNew_def by (simp add: max_def)
  have nt: "new_table nNew ?m (replicate (nat nNew) None) (replicate (nat nNew) [])"
    by (simp add: new_table_def)
  have e: "concat (replicate (nat nNew) ([] :: nat list)) = []" by simp
  have "nat (nHash c) = length bs" using n by simp
  then have mp: "map ((!) bs) [0..<nat (nHash c)] = bs" by (simp only: map_nth)
  have dk: "distinct (map (\<lambda>a. iKey (?m ! a)) (concat bs))" using ht by (simp add: hash_table_def)
  then have dc: "distinct (concat bs)" by (simp add: distinct_map)
  have inj: "inj_on (\<lambda>a. iKey (?m ! a)) (set (concat bs))" using dk by (simp add: distinct_map)
  have pre: "\<forall>i \<in> set [0..<nat (nHash c)]. i < length (apHash c) \<and> chain ?m (apHash c ! i) (bs ! i)
                  \<and> (\<forall>a \<in> set (bs ! i). 0 \<le> iKey (?m ! a))"
    using ht n by (auto simp: hash_table_def)
  obtain apNew' m' ns' where r:
    "ResizeHash_outer nNew [0..<nat (nHash c)] (replicate (nat nNew) None, c)
       = Some (Inr (apNew', c\<lparr>mem := m'\<rparr>))"
    "new_table nNew m' apNew' ns'"
    "set (concat ns') = set (concat bs)" "distinct (concat ns')"
    "length m' = length ?m" "\<forall>b<length ?m. iKey (m' ! b) = iKey (?m ! b)"
    using ResizeHash_outer_chain[OF pos nt _ pre] dc by (auto simp: mp e simp del: set_concat)
  define c' where "c' = c\<lparr>mem := m', apHash := apNew', nHash := nNew\<rparr>"
  have rh: "ResizeHash c = Some (Inr c')"
    using r(1) by (simp add: ResizeHash_def Let_def nn c'_def)
  have inr: "\<forall>a \<in> set (concat bs). a < length ?m"
    using ht by (auto elim: hash_table_bucket simp del: set_concat)
  have keys: "\<forall>a \<in> set (concat bs). iKey (m' ! a) = iKey (?m ! a)" using r(6) inr by simp
  have inj': "inj_on (\<lambda>a. iKey (m' ! a)) (set (concat ns'))"
    using inj keys r(3) by (auto simp: inj_on_def simp del: set_concat)
  have "hash_table c' ns'"
    unfolding hash_table_def
  proof (intro conjI ballI)
    show "nHash c' = int (length (apHash c'))" using r(2) pos by (simp add: c'_def new_table_def)
    show "length ns' = length (apHash c')" using r(2) by (simp add: c'_def new_table_def)
    show "distinct (map (\<lambda>a. iKey (mem c' ! a)) (concat ns'))"
      using r(4) inj' by (simp add: c'_def distinct_map)
  next
    fix i assume "i \<in> set [0..<length ns']"
    then have i: "i < nat nNew" using r(2) by (simp add: new_table_def)
    then show "chain (mem c') (apHash c' ! i) (ns' ! i)"
      using r(2) by (simp add: c'_def new_table_def)
    fix a assume "a \<in> set (ns' ! i)"
    then show "0 \<le> iKey (mem c' ! a)" "iKey (mem c' ! a) mod nHash c' = int i"
      using r(2) i by (simp_all add: c'_def new_table_def)
  qed
  then show ?thesis
    using rh r(3,5) keys by (intro exI[of _ c'] exI[of _ ns']) (simp add: c'_def nNew_def)
qed

text \<open>
  C6, as stated: whenever nPage >= nHash at fetch time, ResizeHash is invoked and
  doubles nHash. A fetch that finds the page returns before the test: in the table
  of 256 buckets with 256 pages the fetch of page 5 returns entry 5 and leaves the
  cache as it was, with 256 buckets.
\<close>

theorem FetchPage_hit_no_resize:
  "nHash cache256 \<le> nPage cache256
   \<and> FetchPage cache256 5 = Some (Inr (cache256, Some 5))
   \<and> nHash cache256 = 256"
  by code_simp

text \<open>
  C6, amended: whenever a fetch does not find the page and nPage >= nHash,
  ResizeHash is invoked (the fetch goes on in the cache that ResizeHash leaves) and
  doubles nHash, with a minimum of 256; it rehashes every entry: the resident
  entries are the same, they keep their page numbers, and the hash lookup of the
  page number of each of them finds it. \<open>nHash < 2 ^ 62\<close> keeps the doubling
  within Go's \<open>int\<close>.
\<close>

theorem FetchPage_miss_resizes:
  assumes "hash_table c bs" and "nHash c < 2 ^ 62"
    and "FetchPage_lookup c k = Some (Inr None)" and "nHash c \<le> nPage c"
  shows "\<exists>c' bs'. ResizeHash c = Some (Inr c') \<and> FetchPage c k = FetchPage_create c' k
      \<and> nHash c' = max (2 * nHash c) 256
      \<and> hash_table c' bs' \<and> set (concat bs') = set (concat bs)
      \<and> (\<forall>a \<in> set (concat bs). iKey (mem c' ! a) = iKey (mem c ! a)
            \<and> FetchPage_lookup c' (iKey (mem c ! a)) = Some (Inr (Some a)))"
proof -
  obtain c' bs' where r: "ResizeHash c = Some (Inr c')" "nHash c' = max (2 * nHash c) 256"
    "hash_table c' bs'" "set (concat bs') = set (concat bs)"
    "\<forall>a \<in> set (concat bs). iKey (mem c' ! a) = iKey (mem c ! a)"
    using ResizeHash_hash_table[OF assms(1,2)] by blast
  have f: "FetchPage c k = FetchPage_create c' k"
    using assms(3,4) r(1) by (simp add: FetchPage_def)
  have "\<forall>a \<in> set (concat bs). FetchPage_lookup c' (iKey (mem c ! a)) = Some (Inr (Some a))"
  proof
    fix a assume a: "a \<in> set (concat bs)"
    then have "a \<in> set (concat bs')" using r(4) by simp
    then have "FetchPage_lookup c' (iKey (mem c' ! a)) = Some (Inr (Some a))"
      using r(3) by (rule FetchPage_lookup_resident[rotated])
    moreover have "iKey (mem c' ! a) = iKey (mem c ! a)" using r(5) a by blast
    ultimately show "FetchPage_lookup c' (iKey (mem c ! a)) = Some (Inr (Some a))"
      by simp
  qed
  then show ?thesis using r f by blast
qed

theorem FetchPage_miss_resizes_witness:
  "hash_table cache_two [[1, 2], [0]] \<and> nHash cache_two < 2 ^ 62
   \<and> FetchPage_lookup cache_two 5 = Some (Inr None) \<and> nHash cache_two \<le> nPage cache_two
   \<and> (\<exists>c' bs'. ResizeHash cache_two = Some (Inr c')
         \<and> FetchPage cache_two 5 = FetchPage_create c' 5
         \<and> nHash c' = 256 \<and> hash_table c' bs' \<and> set (concat bs') = {0, 1, 2}
         \<and> (\<forall>a \<in> {0, 1, 2}. iKey (mem c' ! a) = iKey (mem cache_two ! a)
               \<and> FetchPage_lookup c' (iKey (mem cache_two ! a)) = Some (Inr (Some a))))"
proof -
  have h1: "hash_table cache_two [[1, 2], [0]]" by code_simp
  have h2: "nHash cache_two < 2 ^ 62" by (simp add: cache_two_def)
  have h3: "FetchPage_lookup cache_two 5 = Some (Inr None)" by code_simp
  have h4: "nHash cache_two \<le> nPage cache_two" by (simp add: cache_two_def)
  have n: "max (2 * nHash cache_two) 256 = 256" by (simp add: cache_two_def)
  have s: "set (concat [[1, 2], [0 :: nat]]) = {0, 1, 2}" by auto
  show ?thesis
    using h1 h2 h3 h4 FetchPage_miss_resizes[OF h1 h2 h3 h4] unfolding n s by simp
qed


subsection \<open>Recycling an entry\<close>





















end
